theory Spec2Isabelle
  imports Main
begin

section \<open>The PURL migration tool \<^verbatim>\<open>tools/migrate.py\<close>\<close>

text \<open>
  The script reads a PURL.org XML export with a SAX content handler
  (\<^verbatim>\<open>OCLCHandler\<close>), validates every \<^verbatim>\<open><purl>\<close> element when it ends, collects the
  entry dictionaries in the two module-level lists \<^verbatim>\<open>exact\<close> and \<^verbatim>\<open>prefix\<close>, and
  \<^verbatim>\<open>main\<close> finally writes a header and one block per entry.

  Conventions of the embedding.
  \<^item> A Python \<^verbatim>\<open>str\<close> is a \<^typ>\<open>string\<close>. The embedding covers ASCII text: case mapping
    and whitespace are Python's on the code points below 128, larger code points are
    left alone.
  \<^item> A raised exception is the \<open>Inl\<close> of a sum; every \<^verbatim>\<open>raise\<close> of the source is a
    branch. \<^verbatim>\<open>ValueError\<close> carries the formatted message.
  \<^item> The entry dictionaries are mutable objects that the handler and the two lists
    share, so they live in an explicit heap and the lists hold addresses.
  \<^item> The XML file is a tree, a document being an \<open>Element\<close>; the SAX parser turns it into
    the event sequence that drives the handler. Attributes are left out:
    \<^verbatim>\<open>startElement\<close> never reads \<^verbatim>\<open>attrs\<close>. Files that are not well-formed XML are outside
    the embedding.
  \<^item> Opening and closing the YAML file are left out; the file is the list of the
    strings written to it.
\<close>

subsection \<open>Strings\<close>

definition nl :: string where
  "nl = [CHR 0x0A]"

text \<open>\<^verbatim>\<open>str.isspace\<close> on ASCII: tab, line feed, vertical tab, form feed, carriage return,
  the four separators 0x1C..0x1F and the space.\<close>

definition isspace :: "char \<Rightarrow> bool" where
  "isspace c = (c \<in> set [CHR 0x09, CHR 0x0A, CHR 0x0B, CHR 0x0C, CHR 0x0D,
                          CHR 0x1C, CHR 0x1D, CHR 0x1E, CHR 0x1F, CHR 0x20])"

text \<open>\<^verbatim>\<open>s.strip()\<close>\<close>

definition strip :: "string \<Rightarrow> string" where
  "strip s = rev (dropWhile isspace (rev (dropWhile isspace s)))"

definition lower_char :: "char \<Rightarrow> char" where
  "lower_char c =
     (case map_of (zip ''ABCDEFGHIJKLMNOPQRSTUVWXYZ'' ''abcdefghijklmnopqrstuvwxyz'') c of
        Some d \<Rightarrow> d | None \<Rightarrow> c)"

definition upper_char :: "char \<Rightarrow> char" where
  "upper_char c =
     (case map_of (zip ''abcdefghijklmnopqrstuvwxyz'' ''ABCDEFGHIJKLMNOPQRSTUVWXYZ'') c of
        Some d \<Rightarrow> d | None \<Rightarrow> c)"

text \<open>\<^verbatim>\<open>s.lower()\<close> and \<^verbatim>\<open>s.upper()\<close>\<close>

definition lower :: "string \<Rightarrow> string" where
  "lower s = map lower_char s"

definition upper :: "string \<Rightarrow> string" where
  "upper s = map upper_char s"

text \<open>\<^verbatim>\<open>'%d' % n\<close> for a counter that starts at 0 and is only incremented.\<close>

fun str_of_nat :: "nat \<Rightarrow> string" where
  "str_of_nat n =
     (if n < 10 then [''0123456789'' ! n]
      else str_of_nat (n div 10) @ [''0123456789'' ! (n mod 10)])"

declare str_of_nat.simps [simp del]

subsection \<open>The two regular expressions\<close>

text \<open>
  \<^verbatim>\<open>id_re = re.compile('^' + self.args.base_url, re.IGNORECASE)\<close> builds a pattern from
  the project id without escaping it, so a character of the project id that is
  special in a regular expression keeps its special meaning. The embedding covers the
  patterns made of \<^verbatim>\<open>^\<close> at the front, ordinary characters and the wildcard \<^verbatim>\<open>.\<close>
  (any character but a line feed); for a pattern with another special character
  \<open>re_compile\<close> answers \<open>None\<close>.
\<close>

datatype re_item = Bol | Lit char | Dot

definition re_special :: "char list" where
  "re_special = CHR 0x5C # ''^$*+?{}[]|()''"

fun re_items :: "string \<Rightarrow> re_item list option" where
  "re_items [] = Some []"
| "re_items (c # cs) =
     (if c \<in> set re_special then None
      else case re_items cs of
             None \<Rightarrow> None
           | Some r \<Rightarrow> Some ((if c = CHR ''.'' then Dot else Lit c) # r))"

definition re_compile :: "string \<Rightarrow> re_item list option" where
  "re_compile pattern =
     (case pattern of
        [] \<Rightarrow> Some []
      | c # cs \<Rightarrow>
          if c = CHR ''^'' then map_option ((#) Bol) (re_items cs) else re_items pattern)"

text \<open>
  Matching a pattern at one position of the subject, under \<^verbatim>\<open>re.IGNORECASE\<close>. The
  flag \<open>at_start\<close> says that the position is the start of the subject, where \<^verbatim>\<open>^\<close>
  matches (there is no \<^verbatim>\<open>re.MULTILINE\<close>). The result is what follows the match.
\<close>

fun re_match_here :: "re_item list \<Rightarrow> bool \<Rightarrow> string \<Rightarrow> string option" where
  "re_match_here [] at_start s = Some s"
| "re_match_here (Bol # r) at_start s = (if at_start then re_match_here r at_start s else None)"
| "re_match_here (Lit c # r) at_start [] = None"
| "re_match_here (Lit c # r) at_start (d # s) =
     (if lower_char d = lower_char c then re_match_here r False s else None)"
| "re_match_here (Dot # r) at_start [] = None"
| "re_match_here (Dot # r) at_start (d # s) =
     (if d \<noteq> CHR 0x0A then re_match_here r False s else None)"

text \<open>\<^verbatim>\<open>id_re.match(s)\<close>: a match at the start of the subject.\<close>

definition re_match :: "re_item list \<Rightarrow> string \<Rightarrow> bool" where
  "re_match r s = (re_match_here r True s \<noteq> None)"

text \<open>
  \<^verbatim>\<open>id_re.sub('', s)\<close>: every non-overlapping match, found from left to right, is
  replaced by the empty string. After a match that consumed nothing the scan moves on
  by one character.
\<close>

function re_sub_from :: "re_item list \<Rightarrow> bool \<Rightarrow> string \<Rightarrow> string" where
  "re_sub_from r at_start s =
     (case re_match_here r at_start s of
        Some rest \<Rightarrow>
          if length rest < length s then re_sub_from r False rest
          else (case s of [] \<Rightarrow> [] | c # cs \<Rightarrow> c # re_sub_from r False cs)
      | None \<Rightarrow> (case s of [] \<Rightarrow> [] | c # cs \<Rightarrow> c # re_sub_from r False cs))"
  by pat_completeness auto
termination
  by (relation "measure (\<lambda>(r, b, s). length s)") auto

declare re_sub_from.simps [simp del]

definition re_sub :: "re_item list \<Rightarrow> string \<Rightarrow> string" where
  "re_sub r s = re_sub_from r True s"

text \<open>
  \<^verbatim>\<open>re.match(r'^(https?|ftp)\:\/\/.+', url)\<close>: one of the three schemes, \<^verbatim>\<open>://\<close>, and
  then \<^verbatim>\<open>.+\<close>, which needs one character that is not a line feed; what follows that
  character is free.
\<close>

fun strip_prefix :: "string \<Rightarrow> string \<Rightarrow> string option" where
  "strip_prefix [] s = Some s"
| "strip_prefix (c # p) [] = None"
| "strip_prefix (c # p) (d # s) = (if c = d then strip_prefix p s else None)"

definition scheme_match :: "string \<Rightarrow> string \<Rightarrow> bool" where
  "scheme_match scheme url =
     (case strip_prefix (scheme @ ''://'') url of
        Some (c # rest) \<Rightarrow> c \<noteq> CHR 0x0A
      | _ \<Rightarrow> False)"

definition url_re_match :: "string \<Rightarrow> bool" where
  "url_re_match url =
     (scheme_match ''http'' url \<or> scheme_match ''https'' url \<or> scheme_match ''ftp'' url)"

subsection \<open>The XML file and its SAX events\<close>

datatype xml = Text string | Element string "xml list"

datatype event = StartElement string | Characters string | EndElement string

text \<open>The calls that \<^verbatim>\<open>sax.parse\<close> makes on the content handler, in document order. Two
  \<open>Text\<close> children in a row are character data that the parser delivers in two chunks.\<close>

fun sax_events :: "xml \<Rightarrow> event list" where
  "sax_events (Text s) = [Characters s]"
| "sax_events (Element name children) =
     StartElement name # concat (map sax_events children) @ [EndElement name]"

text \<open>The number of \<^verbatim>\<open><purl>\<close> elements of a document.\<close>

fun purl_count :: "xml \<Rightarrow> nat" where
  "purl_count (Text s) = 0"
| "purl_count (Element name children) =
     (if name = ''purl'' then 1 else 0) + sum_list (map purl_count children)"

subsection \<open>Exceptions and their messages\<close>

datatype exn =
    ValueError string
  | KeyError string
  | Unmodelled string
    \<comment> \<open>not an exception of the program: the pattern built from \<^verbatim>\<open>base_url\<close> uses
        regular-expression syntax that this embedding does not cover\<close>

text \<open>The messages of the source, each the format string of a \<^verbatim>\<open>raise\<close>; \<open>no_field_msg\<close>
  is the three messages \<^verbatim>\<open>No <id> ...\<close>, \<^verbatim>\<open>No <url> ...\<close> and \<^verbatim>\<open>No <type> ...\<close>.\<close>

definition empty_field_msg :: "string \<Rightarrow> nat \<Rightarrow> string" where
  "empty_field_msg name n = ''Empty <'' @ name @ ''> for <purl> '' @ str_of_nat n"

definition no_field_msg :: "string \<Rightarrow> nat \<Rightarrow> string" where
  "no_field_msg name n = ''No <'' @ name @ ''> for <purl> '' @ str_of_nat n"

definition prefix_mismatch_msg :: "nat \<Rightarrow> string \<Rightarrow> string \<Rightarrow> string" where
  \<open>prefix_mismatch_msg n ident base =
     ''In <purl> '' @ str_of_nat n @ '' the <id> "'' @ ident @
     ''" does not begin with base_url "'' @ base @ ''"''\<close>

definition invalid_url_msg :: "nat \<Rightarrow> string \<Rightarrow> string" where
  \<open>invalid_url_msg n url =
     ''In <purl> '' @ str_of_nat n @ '' the <url> "'' @ url @
     ''" is not an absolute HTTP or FTP URL''\<close>

definition unknown_type_msg :: "string \<Rightarrow> nat \<Rightarrow> string" where
  \<open>unknown_type_msg ty n = ''Unknown type "'' @ ty @ ''" for <purl> '' @ str_of_nat n\<close>

definition no_entries_msg :: string where
  "no_entries_msg = ''No entries to migrate''"

subsection \<open>The content handler\<close>

type_synonym dict = "string \<rightharpoonup> string"
type_synonym addr = nat

text \<open>
  The state that the three callbacks read and write: the fields of the handler object
  (\<open>base_url\<close> is \<^verbatim>\<open>self.args.base_url\<close>; \<open>entry\<close> is a reference to a dictionary), the
  module-level lists \<^verbatim>\<open>exact\<close> and \<^verbatim>\<open>prefix\<close>, which hold references to dictionaries, and
  the heap of dictionaries. \<open>next_addr\<close> is the address that the next \<^verbatim>\<open>{}\<close> gets.
\<close>

record handler =
  base_url :: string
  count :: nat
  content :: string
  entry :: addr
  heap :: "addr \<Rightarrow> dict"
  next_addr :: addr
  exact :: "addr list"
  prefix :: "addr list"

text \<open>\<^verbatim>\<open>OCLCHandler.__init__\<close>, with the two lists as the module creates them.\<close>

definition OCLCHandler :: "string \<Rightarrow> handler" where
  "OCLCHandler base =
     \<lparr>base_url = base, count = 0, content = [], entry = 0,
      heap = (\<lambda>a. Map.empty), next_addr = 1, exact = [], prefix = []\<rparr>"

definition startElement :: "handler \<Rightarrow> string \<Rightarrow> handler" where
  "startElement h name =
     (let h1 = h\<lparr>content := []\<rparr>
      in if name = ''purl''
         then h1\<lparr>count := count h1 + 1,
                 entry := next_addr h1,
                 heap := (heap h1)(next_addr h1 := Map.empty),
                 next_addr := next_addr h1 + 1\<rparr>
         else h1)"

definition characters :: "handler \<Rightarrow> string \<Rightarrow> handler" where
  "characters h chunk = h\<lparr>content := content h @ chunk\<rparr>"

text \<open>\<^verbatim>\<open>self.entry[key] = value\<close>\<close>

definition entry_set :: "handler \<Rightarrow> string \<Rightarrow> string \<Rightarrow> handler" where
  "entry_set h key v = h\<lparr>heap := (heap h)(entry h := (heap h (entry h))(key \<mapsto> v))\<rparr>"

text \<open>The branch \<^verbatim>\<open>elif name == 'purl'\<close> of \<^verbatim>\<open>endElement\<close>: the validation of the entry.\<close>

definition end_purl :: "handler \<Rightarrow> exn + handler" where
  "end_purl h =
     (case heap h (entry h) ''id'' of
        None \<Rightarrow> Inl (ValueError (no_field_msg ''id'' (count h)))
      | Some ident \<Rightarrow>
     (case re_compile (''^'' @ base_url h) of
        None \<Rightarrow> Inl (Unmodelled (''^'' @ base_url h))
      | Some id_re \<Rightarrow>
          if \<not> re_match id_re ident
          then Inl (ValueError (prefix_mismatch_msg (count h) ident (base_url h)))
          else
            let h1 = entry_set h ''id'' (re_sub id_re ident)
            in (case heap h1 (entry h1) ''url'' of
                  None \<Rightarrow> Inl (ValueError (no_field_msg ''url'' (count h1)))
                | Some url \<Rightarrow>
                    if \<not> url_re_match url
                    then Inl (ValueError (invalid_url_msg (count h1) url))
                    else
                      (case heap h1 (entry h1) ''type'' of
                         None \<Rightarrow> Inl (ValueError (no_field_msg ''type'' (count h1)))
                       | Some ty \<Rightarrow>
                           if ty = ''302''
                           then Inr ((entry_set h1 ''rule'' ''exact'')
                                       \<lparr>exact := exact h1 @ [entry h1]\<rparr>)
                           else if ty = ''partial''
                           then Inr ((entry_set h1 ''rule'' ''prefix'')
                                       \<lparr>prefix := prefix h1 @ [entry h1]\<rparr>)
                           else Inl (ValueError (unknown_type_msg ty (count h1)))))))"

definition endElement :: "handler \<Rightarrow> string \<Rightarrow> exn + handler" where
  "endElement h name =
     (if name \<in> set [''type'', ''id'', ''url'']
      then if strip (content h) = []
           then Inl (ValueError (empty_field_msg name (count h)))
           else Inr (entry_set h name (strip (content h)))
      else if name = ''purl'' then end_purl h
      else Inr h)"

text \<open>One callback, and the whole parse: the first exception ends it.\<close>

fun handle_event :: "handler \<Rightarrow> event \<Rightarrow> exn + handler" where
  "handle_event h (StartElement name) = Inr (startElement h name)"
| "handle_event h (Characters chunk) = Inr (characters h chunk)"
| "handle_event h (EndElement name) = endElement h name"

fun handle_events :: "handler \<Rightarrow> event list \<Rightarrow> exn + handler" where
  "handle_events h [] = Inr h"
| "handle_events h (e # es) =
     (case handle_event h e of Inl x \<Rightarrow> Inl x | Inr h' \<Rightarrow> handle_events h' es)"

definition sax_parse :: "handler \<Rightarrow> xml \<Rightarrow> exn + handler" where
  "sax_parse h doc = handle_events h (sax_events doc)"

subsection \<open>Writing the YAML file\<close>

definition header_template :: "string \<Rightarrow> string \<Rightarrow> string \<Rightarrow> string \<Rightarrow> string \<Rightarrow> string" where
  "header_template a b c d e =
     ''# PURL configuration for http://purl.brain-bican.org'' @ a @ nl @
     nl @
     ''idspace: '' @ b @ nl @
     ''base_url: '' @ c @ nl @
     nl @
     ''products:'' @ nl @
     ''- '' @ d @ ''.owl: TODO'' @ nl @
     ''- '' @ e @ ''.obo: TODO'' @ nl @
     nl @
     ''term_browser: ontobee'' @ nl @
     ''example_terms:'' @ nl @
     ''- TODO'' @ nl @
     nl @
     ''entries:'' @ nl"

definition entry_template :: "string \<Rightarrow> string \<Rightarrow> string \<Rightarrow> string" where
  "entry_template rule ident url =
     ''- '' @ rule @ '': '' @ ident @ nl @
     ''  replacement: '' @ url @ nl @
     nl"

text \<open>\<^verbatim>\<open>d[key]\<close>\<close>

definition getitem :: "dict \<Rightarrow> string \<Rightarrow> exn + string" where
  "getitem d key = (case d key of None \<Rightarrow> Inl (KeyError key) | Some v \<Rightarrow> Inr v)"

text \<open>
  \<^verbatim>\<open>sorted(prefix, key=lambda k: len(k['id']), reverse=True)\<close>. The keys are computed
  first, one per element from left to right; then the list is sorted on them. With
  \<^verbatim>\<open>reverse=True\<close> the list is reversed, sorted stably in ascending order and reversed
  again.
\<close>

fun sort_keys :: "(addr \<Rightarrow> dict) \<Rightarrow> addr list \<Rightarrow> exn + (nat \<times> addr) list" where
  "sort_keys hp [] = Inr []"
| "sort_keys hp (a # as) =
     (case getitem (hp a) ''id'' of
        Inl x \<Rightarrow> Inl x
      | Inr ident \<Rightarrow>
          (case sort_keys hp as of
             Inl x \<Rightarrow> Inl x
           | Inr ks \<Rightarrow> Inr ((length ident, a) # ks)))"

definition sorted_reverse :: "(addr \<Rightarrow> dict) \<Rightarrow> addr list \<Rightarrow> exn + addr list" where
  "sorted_reverse hp as =
     (case sort_keys hp as of
        Inl x \<Rightarrow> Inl x
      | Inr ks \<Rightarrow> Inr (map snd (rev (sort_key fst (rev ks)))))"

text \<open>The loop \<^verbatim>\<open>for entry in entries: args.yaml_file.write(...)\<close>. The file is the list
  of the strings written so far; an exception leaves what was written before it.\<close>

fun write_entries :: "(addr \<Rightarrow> dict) \<Rightarrow> addr list \<Rightarrow> string list \<Rightarrow> string list \<times> exn option" where
  "write_entries hp [] yaml_file = (yaml_file, None)"
| "write_entries hp (a # as) yaml_file =
     (case getitem (hp a) ''rule'' of
        Inl x \<Rightarrow> (yaml_file, Some x)
      | Inr rule \<Rightarrow>
     (case getitem (hp a) ''id'' of
        Inl x \<Rightarrow> (yaml_file, Some x)
      | Inr ident \<Rightarrow>
     (case getitem (hp a) ''url'' of
        Inl x \<Rightarrow> (yaml_file, Some x)
      | Inr url \<Rightarrow> write_entries hp as (yaml_file @ [entry_template rule ident url]))))"

text \<open>
  \<^verbatim>\<open>main\<close>, from the parsed arguments on: the project id and the XML file. The result is
  what was written to the YAML file and the exception that ended the run, if any.
\<close>

definition main :: "string \<Rightarrow> xml \<Rightarrow> string list \<times> exn option" where
  "main idspace xml_file =
     (let upper_idspace = upper idspace;
          lower_idspace = lower idspace;
          base = ''/obo/'' @ lower_idspace
      in case sax_parse (OCLCHandler base) xml_file of
           Inl x \<Rightarrow> ([], Some x)
         | Inr h \<Rightarrow>
             (case sorted_reverse (heap h) (prefix h) of
                Inl x \<Rightarrow> ([], Some x)
              | Inr sorted_prefix \<Rightarrow>
                  let entries = exact h @ sorted_prefix
                  in if length entries = 0
                     then ([], Some (ValueError no_entries_msg))
                     else write_entries (heap h) entries
                            [header_template base upper_idspace base lower_idspace lower_idspace]))"

section \<open>Notions for the statements\<close>

subsection \<open>Events and entries\<close>

text \<open>A field of the current entry after a callback, if the callback returned.\<close>

definition current :: "exn + handler \<Rightarrow> string \<Rightarrow> string option" where
  "current res key = (case res of Inl x \<Rightarrow> None | Inr h \<Rightarrow> heap h (entry h) key)"

text \<open>The number of record starts among the events: what the counter \<^verbatim>\<open>self.count\<close>
  has reached after them.\<close>

definition purl_starts :: "event list \<Rightarrow> nat" where
  "purl_starts es = length (filter (\<lambda>e. e = StartElement ''purl'') es)"

definition purl_ends :: "event list \<Rightarrow> nat" where
  "purl_ends es = length (filter (\<lambda>e. e = EndElement ''purl'') es)"

text \<open>The events of a field element with one chunk of character data.\<close>

definition field_events :: "string \<Rightarrow> string \<Rightarrow> event list" where
  "field_events name chunk = [StartElement name, Characters chunk, EndElement name]"

text \<open>The character data of the events, concatenated.\<close>

fun chunks :: "event list \<Rightarrow> string" where
  "chunks [] = []"
| "chunks (Characters chunk # es) = chunk @ chunks es"
| "chunks (e # es) = chunks es"

fun is_start :: "event \<Rightarrow> bool" where
  "is_start (StartElement name) = True"
| "is_start e = False"

text \<open>The three fields that a block of the YAML file is made of, read from a dictionary.\<close>

definition entry_fields :: "dict \<Rightarrow> (string \<times> string \<times> string) option" where
  "entry_fields d =
     (case (d ''rule'', d ''id'', d ''url'') of
        (Some rule, Some ident, Some url) \<Rightarrow> Some (rule, ident, url)
      | _ \<Rightarrow> None)"

definition block :: "string \<times> string \<times> string \<Rightarrow> string" where
  "block t = (case t of (rule, ident, url) \<Rightarrow> entry_template rule ident url)"

definition rule_of :: "string \<times> string \<times> string \<Rightarrow> string" where
  "rule_of t = fst t"

definition id_of :: "string \<times> string \<times> string \<Rightarrow> string" where
  "id_of t = fst (snd t)"

text \<open>
  The validated records in the order of their ends, each as the rule, the id and the URL
  that its entry holds right after its validation.
\<close>

fun validated :: "handler \<Rightarrow> event list \<Rightarrow> (string \<times> string \<times> string) list" where
  "validated h [] = []"
| "validated h (e # es) =
     (case handle_event h e of
        Inl x \<Rightarrow> []
      | Inr h' \<Rightarrow>
          (if e = EndElement ''purl''
           then (case entry_fields (heap h' (entry h')) of Some t \<Rightarrow> [t] | None \<Rightarrow> [])
           else []) @ validated h' es)"

text \<open>The callbacks that write into the current entry.\<close>

fun mutates :: "event \<Rightarrow> bool" where
  "mutates (EndElement name) = (name \<in> set [''type'', ''id'', ''url'', ''purl''])"
| "mutates e = False"

text \<open>
  Once a record has ended, no element named \<^verbatim>\<open>id\<close>, \<^verbatim>\<open>type\<close>, \<^verbatim>\<open>url\<close> or \<^verbatim>\<open>purl\<close> ends until
  another record has started; when no record starts afterwards, none ends up to the end
  of the events. The flag \<open>closed\<close> says that a record has ended and none has started
  since.
\<close>

fun records_apart :: "bool \<Rightarrow> event list \<Rightarrow> bool" where
  "records_apart closed [] = True"
| "records_apart closed (e # es) =
     ((closed \<and> mutates e) = False \<and>
      records_apart (e = EndElement ''purl'' \<or> (closed \<and> e \<noteq> StartElement ''purl'')) es)"

text \<open>No record element in a tree.\<close>

fun no_purl :: "xml \<Rightarrow> bool" where
  "no_purl (Text s) = True"
| "no_purl (Element name children) = (name \<noteq> ''purl'' \<and> list_all no_purl children)"

text \<open>A child of the root of a flat document: character data, or a record element with
  no record element inside.\<close>

fun flat_child :: "xml \<Rightarrow> bool" where
  "flat_child (Text s) = True"
| "flat_child (Element name children) = (name = ''purl'' \<and> list_all no_purl children)"

text \<open>The documents that the header comment of the script describes: the root is not
  named \<^verbatim>\<open>id\<close>, \<^verbatim>\<open>type\<close>, \<^verbatim>\<open>url\<close> or \<^verbatim>\<open>purl\<close>, and its children are character data and
  record elements only, no record element having a record element inside.\<close>

fun flat_document :: "xml \<Rightarrow> bool" where
  "flat_document (Text s) = False"
| "flat_document (Element root children) =
     (root \<notin> set [''type'', ''id'', ''url'', ''purl''] \<and> list_all flat_child children)"

subsection \<open>Invariants of a run\<close>

text \<open>Every listed dictionary was allocated and has the three fields.\<close>

definition has_fields :: "dict \<Rightarrow> bool" where
  "has_fields d = (entry_fields d \<noteq> None)"

definition listed_ok :: "handler \<Rightarrow> bool" where
  "listed_ok h =
     (entry h < next_addr h \<and>
      list_all (\<lambda>a. a < next_addr h \<and> has_fields (heap h a)) (exact h @ prefix h))"

definition fields :: "handler \<Rightarrow> addr list \<Rightarrow> (string \<times> string \<times> string) option list" where
  "fields h as = map (\<lambda>a. entry_fields (heap h a)) as"

definition apart_inv :: "handler \<Rightarrow> bool \<Rightarrow> bool" where
  "apart_inv h closed =
     (listed_ok h \<and> (closed \<or> entry h \<notin> set (exact h) \<union> set (prefix h)))"

subsection \<open>Sample inputs\<close>

text \<open>A record as the header comment of the script shows it: the id, the type, and the
  URL one level deeper.\<close>

definition purl_elem :: "string \<Rightarrow> string \<Rightarrow> string \<Rightarrow> xml" where
  "purl_elem ident ty url =
     Element ''purl''
       [Element ''id'' [Text ident], Element ''type'' [Text ty],
        Element ''target'' [Element ''url'' [Text url]]]"

text \<open>The handler of project \<^verbatim>\<open>foo\<close> inside its first record, with the given fields
  captured.\<close>

definition entry_of :: "(string \<times> string) list \<Rightarrow> handler" where
  "entry_of kvs =
     foldl (\<lambda>h (k, v). entry_set h k v) (startElement (OCLCHandler ''/obo/foo'') ''purl'') kvs"

text \<open>Two records, the \<^verbatim>\<open>partial\<close> one first.\<close>

definition two_records :: xml where
  "two_records =
     Element ''purls''
       [purl_elem ''/obo/foo/short'' ''partial'' ''http://example.org/s'',
        purl_elem ''/obo/foo/branches/'' ''302'' ''http://example.org/b'']"

text \<open>A record inside a record, with a second type after the inner record, and one more
  record.\<close>

definition nested_records :: xml where
  "nested_records =
     Element ''purls''
       [Element ''purl''
          [purl_elem ''/obo/foo/obo/foo/a'' ''302'' ''http://example.org/a'',
           Element ''type'' [Text ''partial'']],
        purl_elem ''/obo/foo/b'' ''302'' ''http://example.org/b'']"

text \<open>Five records: three \<^verbatim>\<open>partial\<close> ones, two of them with ids of one length, and two
  \<^verbatim>\<open>302\<close> ones between them.\<close>

definition five_records :: xml where
  "five_records =
     Element ''purls''
       [purl_elem ''/obo/foo/ab'' ''partial'' ''http://example.org/1'',
        purl_elem ''/obo/foo/x'' ''302'' ''http://example.org/2'',
        purl_elem ''/obo/foo/abcd'' ''partial'' ''http://example.org/3'',
        purl_elem ''/obo/foo/longest'' ''302'' ''http://example.org/4'',
        purl_elem ''/obo/foo/cd'' ''partial'' ''http://example.org/5'']"

text \<open>Two records and an \<^verbatim>\<open>id\<close> element that is a child of the root: between the
  records, and after the last record.\<close>

definition stray_between :: xml where
  "stray_between =
     Element ''purls''
       [purl_elem ''/obo/foo/a'' ''partial'' ''http://example.org/a'',
        Element ''id'' [Text ''zzzzzzzz''],
        purl_elem ''/obo/foo/bbbb'' ''partial'' ''http://example.org/b'']"

definition stray_after :: xml where
  "stray_after =
     Element ''purls''
       [purl_elem ''/obo/foo/a'' ''partial'' ''http://example.org/a'',
        purl_elem ''/obo/foo/bbbb'' ''partial'' ''http://example.org/b'',
        Element ''id'' [Text ''z'']]"

section \<open>Properties\<close>

subsection \<open>The regular expressions\<close>

lemma strip_prefix_iff: "strip_prefix p s = Some r \<longleftrightarrow> s = p @ r"
proof (induction p arbitrary: s)
  case Nil
  show ?case by auto
next
  case (Cons c p)
  show ?case by (cases s) (auto simp: Cons.IH)
qed

lemma scheme_match_iff:
  "scheme_match sc u \<longleftrightarrow> (\<exists>c rest. u = sc @ ''://'' @ c # rest \<and> c \<noteq> CHR 0x0A)"
proof
  assume "scheme_match sc u"
  then obtain c rest where "strip_prefix (sc @ ''://'') u = Some (c # rest)" and "c \<noteq> CHR 0x0A"
    unfolding scheme_match_def by (auto split: option.splits list.splits)
  then show "\<exists>c rest. u = sc @ ''://'' @ c # rest \<and> c \<noteq> CHR 0x0A"
    by (auto simp: strip_prefix_iff)
next
  assume "\<exists>c rest. u = sc @ ''://'' @ c # rest \<and> c \<noteq> CHR 0x0A"
  then obtain c rest where u: "u = (sc @ ''://'') @ c # rest" and c: "c \<noteq> CHR 0x0A"
    by auto
  from u have "strip_prefix (sc @ ''://'') u = Some (c # rest)"
    by (simp only: strip_prefix_iff)
  with c show "scheme_match sc u"
    unfolding scheme_match_def by simp
qed

lemma url_re_match_iff:
  "url_re_match url \<longleftrightarrow>
     (\<exists>scheme \<in> set [''http'', ''https'', ''ftp''].
        \<exists>c rest. url = scheme @ ''://'' @ c # rest \<and> c \<noteq> CHR 0x0A)"
  unfolding url_re_match_def scheme_match_iff by simp

lemma re_items_no_Bol: "re_items s = Some r \<Longrightarrow> Bol \<notin> set r"
  by (induction s arbitrary: r) (auto split: if_splits option.splits)

lemma re_items_length: "re_items s = Some r \<Longrightarrow> length r = length s"
  by (induction s arbitrary: r) (auto split: if_splits option.splits)

lemma re_match_here_length:
  "Bol \<notin> set r \<Longrightarrow> re_match_here r b s = Some rest \<Longrightarrow> length r \<le> length s \<and> rest = drop (length r) s"
  by (induction r b s rule: re_match_here.induct) (auto split: if_splits)

lemma re_match_Bol_length:
  "Bol \<notin> set r \<Longrightarrow> re_match (Bol # r) s \<Longrightarrow> length r \<le> length s"
  unfolding re_match_def by (auto dest: re_match_here_length)

lemma re_sub_from_Bol_False: "re_sub_from (Bol # r) False s = s"
  by (induction s) (simp_all add: re_sub_from.simps)

lemma re_sub_copy: "(case s of [] \<Rightarrow> [] | c # cs \<Rightarrow> c # re_sub_from (Bol # r) False cs) = s"
  by (cases s) (simp_all add: re_sub_from_Bol_False)

lemma re_sub_Bol:
  assumes "Bol \<notin> set r"
  shows "re_sub (Bol # r) s = (if re_match (Bol # r) s then drop (length r) s else s)"
proof (cases "re_match_here r True s")
  case None
  then show ?thesis
    by (simp add: re_sub_def re_match_def re_sub_from.simps [of _ True] re_sub_copy)
next
  case (Some rest)
  with assms have rest: "rest = drop (length r) s" and len: "length r \<le> length s"
    using re_match_here_length by blast+
  show ?thesis
  proof (cases "length rest < length s")
    case True
    with Some rest show ?thesis
      by (simp add: re_sub_def re_match_def re_sub_from.simps [of _ True] re_sub_from_Bol_False)
  next
    case False
    with rest len have "rest = s" by (cases r) auto
    with Some rest False show ?thesis
      by (simp add: re_sub_def re_match_def re_sub_from.simps [of _ True] re_sub_copy)
  qed
qed

lemma re_compile_caret: "re_compile (CHR ''^'' # b) = map_option ((#) Bol) (re_items b)"
  by (simp add: re_compile_def)

text \<open>When the base path has no character that is special in a regular expression, the
  check is the case-insensitive prefix test and the strip drops that prefix.\<close>

lemma re_items_literal:
  "set b \<inter> set re_special = {} \<Longrightarrow> CHR ''.'' \<notin> set b \<Longrightarrow> re_items b = Some (map Lit b)"
  by (induction b) auto

lemma re_match_here_literal:
  "re_match_here (map Lit b) at_start s =
     (if lower (take (length b) s) = lower b then Some (drop (length b) s) else None)"
proof (induction b arbitrary: at_start s)
  case Nil
  show ?case by (simp add: lower_def)
next
  case (Cons c b)
  show ?case by (cases s) (auto simp: Cons.IH lower_def)
qed

lemma compile_foo: "re_compile ''^/obo/foo'' = Some (Bol # map Lit ''/obo/foo'')"
  by (simp add: re_compile_def re_special_def)

subsection \<open>The sample handler\<close>

lemma entry_of_simps:
  "entry (entry_of kvs) = Suc 0" "base_url (entry_of kvs) = ''/obo/foo''"
  "count (entry_of kvs) = Suc 0" "exact (entry_of kvs) = []" "prefix (entry_of kvs) = []"
proof -
  have "entry (foldl (\<lambda>h (k, v). entry_set h k v) h0 kvs) = entry h0 \<and>
        base_url (foldl (\<lambda>h (k, v). entry_set h k v) h0 kvs) = base_url h0 \<and>
        count (foldl (\<lambda>h (k, v). entry_set h k v) h0 kvs) = count h0 \<and>
        exact (foldl (\<lambda>h (k, v). entry_set h k v) h0 kvs) = exact h0 \<and>
        prefix (foldl (\<lambda>h (k, v). entry_set h k v) h0 kvs) = prefix h0" for h0
    by (induction kvs arbitrary: h0) (auto simp: entry_set_def)
  then show "entry (entry_of kvs) = Suc 0" "base_url (entry_of kvs) = ''/obo/foo''"
    "count (entry_of kvs) = Suc 0" "exact (entry_of kvs) = []" "prefix (entry_of kvs) = []"
    by (simp_all add: entry_of_def startElement_def OCLCHandler_def)
qed

lemma heap_entry_of: "heap (entry_of kvs) (Suc 0) = map_of (rev kvs)"
proof -
  have "entry h0 = Suc 0 \<Longrightarrow>
        heap (foldl (\<lambda>h (k, v). entry_set h k v) h0 kvs) (Suc 0) = heap h0 (Suc 0) ++ map_of (rev kvs)" for h0
    by (induction kvs arbitrary: h0) (auto simp: entry_set_def map_add_def split: option.splits)
  then show ?thesis
    by (simp add: entry_of_def startElement_def OCLCHandler_def)
qed

lemma str_of_nat_1: "str_of_nat (Suc 0) = ''1''"
  by (simp add: str_of_nat.simps)

lemma parsed_cases: "\<not> isl r \<Longrightarrow> \<exists>h. r = Inr h"
  by (cases r) auto

subsection \<open>The end of a record\<close>

lemma end_purl_entry_count:
  "end_purl h = Inr h' \<Longrightarrow> entry h' = entry h \<and> count h' = count h \<and> content h' = content h \<and> base_url h' = base_url h \<and> next_addr h' = next_addr h"
  unfolding end_purl_def entry_set_def Let_def
  by (auto split: option.splits if_splits)

lemma endElement_purl_id:
  assumes "re_compile (''^'' @ base_url h) = Some id_re"
    and "endElement h ''purl'' = Inr h'"
  shows "\<exists>ident. heap h (entry h) ''id'' = Some ident \<and> re_match id_re ident \<and>
                 heap h' (entry h') ''id'' = Some (re_sub id_re ident)"
  using assms
  unfolding endElement_def end_purl_def entry_set_def Let_def
  by (auto split: option.splits if_splits)

lemma endElement_purl_exact:
  assumes "heap h (entry h) ''id'' = Some ident"
    and "re_compile (''^'' @ base_url h) = Some id_re"
    and "re_match id_re ident"
    and "heap h (entry h) ''url'' = Some url"
    and "url_re_match url"
    and "heap h (entry h) ''type'' = Some ''302''"
  shows "endElement h ''purl'' =
           Inr ((entry_set (entry_set h ''id'' (re_sub id_re ident)) ''rule'' ''exact'')
                  \<lparr>exact := exact h @ [entry h]\<rparr>)"
  using assms
  unfolding endElement_def end_purl_def Let_def
  by (simp add: entry_set_def)

lemma endElement_purl_prefix:
  assumes "heap h (entry h) ''id'' = Some ident"
    and "re_compile (''^'' @ base_url h) = Some id_re"
    and "re_match id_re ident"
    and "heap h (entry h) ''url'' = Some url"
    and "url_re_match url"
    and "heap h (entry h) ''type'' = Some ''partial''"
  shows "endElement h ''purl'' =
           Inr ((entry_set (entry_set h ''id'' (re_sub id_re ident)) ''rule'' ''prefix'')
                  \<lparr>prefix := prefix h @ [entry h]\<rparr>)"
  using assms
  unfolding endElement_def end_purl_def Let_def
  by (simp add: entry_set_def)

lemma endElement_purl_mismatch:
  assumes "heap h (entry h) ''id'' = Some ident"
    and "re_compile (''^'' @ base_url h) = Some id_re"
    and "\<not> re_match id_re ident"
  shows "endElement h ''purl'' =
           Inl (ValueError (prefix_mismatch_msg (count h) ident (base_url h)))"
  using assms
  unfolding endElement_def end_purl_def Let_def
  by simp

lemma invalid_url_msg_neq:
  "invalid_url_msg n u \<noteq> no_field_msg f m"
  "invalid_url_msg n u \<noteq> unknown_type_msg t m"
  "no_field_msg f m \<noteq> invalid_url_msg n u"
  "unknown_type_msg t m \<noteq> invalid_url_msg n u"
  by (simp_all add: invalid_url_msg_def no_field_msg_def unknown_type_msg_def)

text \<open>
  Claim C2. When the entry of a record has its id, and the id matches the base path, and
  it has a URL of the accepted shape, then the end of the record maps the type
  \<^verbatim>\<open>302\<close> to the rule \<^verbatim>\<open>exact\<close> and appends the entry to the list \<^verbatim>\<open>exact\<close>, maps the type
  \<^verbatim>\<open>partial\<close> to the rule \<^verbatim>\<open>prefix\<close> and appends the entry to the list \<^verbatim>\<open>prefix\<close>, and
  raises the unknown-type error, with the type in the message, for every other type.
  These three cases are all there are.
\<close>

theorem rule_type_mapping:
  assumes "heap h (entry h) ''id'' = Some ident"
    and "re_compile (''^'' @ base_url h) = Some id_re"
    and "re_match id_re ident"
    and "heap h (entry h) ''url'' = Some url"
    and "url_re_match url"
    and "heap h (entry h) ''type'' = Some ty"
  shows "(ty = ''302'' \<longrightarrow>
            (\<exists>h'. endElement h ''purl'' = Inr h' \<and>
                  exact h' = exact h @ [entry h] \<and> prefix h' = prefix h \<and>
                  heap h' (entry h) ''rule'' = Some ''exact'')) \<and>
         (ty = ''partial'' \<longrightarrow>
            (\<exists>h'. endElement h ''purl'' = Inr h' \<and>
                  prefix h' = prefix h @ [entry h] \<and> exact h' = exact h \<and>
                  heap h' (entry h) ''rule'' = Some ''prefix'')) \<and>
         (ty \<noteq> ''302'' \<and> ty \<noteq> ''partial'' \<longrightarrow>
            endElement h ''purl'' = Inl (ValueError (unknown_type_msg ty (count h))))"
  using assms
  unfolding endElement_def end_purl_def entry_set_def Let_def
  by simp

theorem rule_type_mapping_witness:
  "current (endElement (entry_of [(''id'', ''/obo/foo/x''), (''url'', ''http://e.org/x''),
                                  (''type'', ''302'')]) ''purl'') ''rule'' = Some ''exact'' \<and>
   current (endElement (entry_of [(''id'', ''/obo/foo/x''), (''url'', ''http://e.org/x''),
                                  (''type'', ''partial'')]) ''purl'') ''rule'' = Some ''prefix'' \<and>
   endElement (entry_of [(''id'', ''/obo/foo/x''), (''url'', ''http://e.org/x''),
                         (''type'', ''301'')]) ''purl'' =
     Inl (ValueError (unknown_type_msg ''301'' 1))"
proof -
  let ?h = "\<lambda>ty. entry_of [(''id'', ''/obo/foo/x''), (''url'', ''http://e.org/x''), (''type'', ty)]"
  have 1: "heap (?h ty) (entry (?h ty)) ''id'' = Some ''/obo/foo/x''" for ty
    by (simp add: entry_of_simps heap_entry_of)
  have 2: "re_compile (''^'' @ base_url (?h ty)) = Some (Bol # map Lit ''/obo/foo'')" for ty
    using compile_foo by (simp add: entry_of_simps)
  have 3: "re_match (Bol # map Lit ''/obo/foo'') ''/obo/foo/x''"
    by (simp add: re_match_def)
  have 4: "heap (?h ty) (entry (?h ty)) ''url'' = Some ''http://e.org/x''" for ty
    by (simp add: entry_of_simps heap_entry_of)
  have 5: "url_re_match ''http://e.org/x''"
    by (simp add: url_re_match_def scheme_match_def)
  have 6: "heap (?h ty) (entry (?h ty)) ''type'' = Some ty" for ty
    by (simp add: entry_of_simps heap_entry_of)
  note r = rule_type_mapping [OF 1 2 3 4 5 6]
  have same: "current (endElement (?h ty) ''purl'') ''rule'' = Some rule"
    if "endElement (?h ty) ''purl'' = Inr h'" "heap h' (entry (?h ty)) ''rule'' = Some rule"
    for ty h' rule
  proof -
    from that(1) have "entry h' = entry (?h ty)"
      by (auto simp: endElement_def dest: end_purl_entry_count)
    with that show ?thesis by (simp add: current_def)
  qed
  from r [of "''302''"] same [of "''302''"]
  have a: "current (endElement (?h ''302'') ''purl'') ''rule'' = Some ''exact''"
    by blast
  from r [of "''partial''"] same [of "''partial''"]
  have b: "current (endElement (?h ''partial'') ''purl'') ''rule'' = Some ''prefix''"
    by blast
  from r [of "''301''"]
  have c: "endElement (?h ''301'') ''purl'' = Inl (ValueError (unknown_type_msg ''301'' 1))"
    by (simp add: entry_of_simps)
  from a b c show ?thesis by simp
qed

text \<open>
  Claim C4, as amended. For a record whose id is captured and matches the base path and
  whose URL is captured, the end of the record raises the invalid-URL error exactly when
  the URL is not one of \<^verbatim>\<open>http\<close>, \<^verbatim>\<open>https\<close>, \<^verbatim>\<open>ftp\<close> followed by \<^verbatim>\<open>://\<close> and by at least one
  character, the first of which is not a line feed. The URL
  \<^verbatim>\<open>ftp://files.example.org/x\<close> with the type \<^verbatim>\<open>partial\<close> is accepted and gives a
  \<^verbatim>\<open>prefix\<close> entry.
\<close>

theorem invalid_url_iff:
  assumes "heap h (entry h) ''id'' = Some ident"
    and "re_compile (''^'' @ base_url h) = Some id_re"
    and "re_match id_re ident"
    and "heap h (entry h) ''url'' = Some url"
  shows "(endElement h ''purl'' = Inl (ValueError (invalid_url_msg (count h) url)) \<longleftrightarrow>
            \<not> (\<exists>scheme \<in> set [''http'', ''https'', ''ftp''].
                 \<exists>c rest. url = scheme @ ''://'' @ c # rest \<and> c \<noteq> CHR 0x0A)) \<and>
         (url = ''ftp://files.example.org/x'' \<and> heap h (entry h) ''type'' = Some ''partial'' \<longrightarrow>
            (\<exists>h'. endElement h ''purl'' = Inr h' \<and> prefix h' = prefix h @ [entry h] \<and>
                  heap h' (entry h) ''rule'' = Some ''prefix'' \<and>
                  heap h' (entry h) ''url'' = Some url))"
proof -
  have ftp: "url_re_match ''ftp://files.example.org/x''"
    by (simp add: url_re_match_def scheme_match_def)
  have "endElement h ''purl'' = Inl (ValueError (invalid_url_msg (count h) url)) \<longleftrightarrow>
          \<not> url_re_match url"
    using assms
    unfolding endElement_def end_purl_def entry_set_def Let_def
    by (auto split: option.splits simp: invalid_url_msg_neq)
  moreover have "url = ''ftp://files.example.org/x'' \<and> heap h (entry h) ''type'' = Some ''partial'' \<longrightarrow>
            (\<exists>h'. endElement h ''purl'' = Inr h' \<and> prefix h' = prefix h @ [entry h] \<and>
                  heap h' (entry h) ''rule'' = Some ''prefix'' \<and>
                  heap h' (entry h) ''url'' = Some url)"
    using assms ftp
    unfolding endElement_def end_purl_def entry_set_def Let_def
    by auto
  ultimately show ?thesis
    by (simp only: url_re_match_iff) 
qed

theorem invalid_url_iff_witness:
  "current (Inr (entry_of [(''id'', ''/obo/foo/x''), (''url'', ''ftp://files.example.org/x''),
                           (''type'', ''partial'')])) ''url'' = Some ''ftp://files.example.org/x'' \<and>
   current (endElement (entry_of [(''id'', ''/obo/foo/x''), (''url'', ''ftp://files.example.org/x''),
                                  (''type'', ''partial'')]) ''purl'') ''rule'' = Some ''prefix'' \<and>
   endElement (entry_of [(''id'', ''/obo/foo/x''), (''url'', ''mailto:x'')]) ''purl'' =
     Inl (ValueError (invalid_url_msg 1 ''mailto:x''))"
proof -
  let ?h = "entry_of [(''id'', ''/obo/foo/x''), (''url'', ''ftp://files.example.org/x''), (''type'', ''partial'')]"
  let ?g = "entry_of [(''id'', ''/obo/foo/x''), (''url'', ''mailto:x'')]"
  have c: "re_compile (''^'' @ base_url (entry_of kvs)) = Some (Bol # map Lit ''/obo/foo'')" for kvs
    using compile_foo by (simp add: entry_of_simps)
  have m: "re_match (Bol # map Lit ''/obo/foo'') ''/obo/foo/x''"
    by (simp add: re_match_def)
  have h1: "heap ?h (entry ?h) ''id'' = Some ''/obo/foo/x''"
    and h4: "heap ?h (entry ?h) ''url'' = Some ''ftp://files.example.org/x''"
    and h6: "heap ?h (entry ?h) ''type'' = Some ''partial''"
    by (simp_all add: entry_of_simps heap_entry_of)
  have g1: "heap ?g (entry ?g) ''id'' = Some ''/obo/foo/x''"
    and g4: "heap ?g (entry ?g) ''url'' = Some ''mailto:x''"
    by (simp_all add: entry_of_simps heap_entry_of)
  from invalid_url_iff [OF h1 c m h4] h6 obtain h' where
    h': "endElement ?h ''purl'' = Inr h'" "heap h' (entry ?h) ''rule'' = Some ''prefix''"
    by blast
  from h'(1) have "entry h' = entry ?h"
    by (auto simp: endElement_def dest: end_purl_entry_count)
  with h' have a: "current (endElement ?h ''purl'') ''rule'' = Some ''prefix''"
    by (simp add: current_def)
  have "\<not> (\<exists>scheme \<in> set [''http'', ''https'', ''ftp''].
            \<exists>c rest. ''mailto:x'' = scheme @ ''://'' @ c # rest \<and> c \<noteq> CHR 0x0A)"
    by simp
  with invalid_url_iff [OF g1 c m g4]
  have b: "endElement ?g ''purl'' = Inl (ValueError (invalid_url_msg 1 ''mailto:x''))"
    by (simp add: entry_of_simps)
  from a b h4 show ?thesis by (simp add: current_def)
qed

text \<open>
  Claim C4 as stated fails: the URL \<^verbatim>\<open>http://\<close> followed by a line feed and \<^verbatim>\<open>x\<close> is a
  scheme, \<^verbatim>\<open>://\<close> and two more characters, and the run ends with the invalid-URL error.
\<close>

theorem invalid_url_counterexample:
  "main ''foo'' (Element ''purls'' [purl_elem ''/obo/foo/x'' ''302'' (''http'' @ ''://'' @ CHR 0x0A # ''x'')])
     = ([], Some (ValueError (invalid_url_msg 1 (''http'' @ ''://'' @ CHR 0x0A # ''x''))))"
  by code_simp

text \<open>
  Claim C5, as amended. The id that a successful validation stores is the captured id
  with one leading match of the base path removed; stripping it again leaves it
  unchanged if and only if the base path does not match at its start.
\<close>

theorem strip_again_iff:
  assumes "base_url h = ''/obo/'' @ lower idspace"
    and "re_compile (''^'' @ base_url h) = Some id_re"
    and "endElement h ''purl'' = Inr h'"
  shows "\<exists>ident. heap h (entry h) ''id'' = Some ident \<and> re_match id_re ident \<and>
           heap h' (entry h') ''id'' = Some (re_sub id_re ident) \<and>
           (re_sub id_re (re_sub id_re ident) = re_sub id_re ident
              \<longleftrightarrow> \<not> re_match id_re (re_sub id_re ident))"
proof -
  from assms(2) obtain r where r: "re_items (base_url h) = Some r" and id_re: "id_re = Bol # r"
    by (auto simp: re_compile_caret)
  from r have nb: "Bol \<notin> set r" and len: "length r = length (base_url h)"
    by (auto dest: re_items_no_Bol re_items_length)
  from len assms(1) have pos: "0 < length r" by simp
  have "re_sub id_re s = s \<longleftrightarrow> \<not> re_match id_re s" for s
  proof (cases "re_match id_re s")
    case True
    with nb id_re have "length r \<le> length s" by (auto dest: re_match_Bol_length)
    with pos have "length (drop (length r) s) < length s" by (cases r) auto
    then have "drop (length r) s \<noteq> s" by (metis less_irrefl)
    with True nb id_re show ?thesis by (simp add: re_sub_Bol)
  next
    case False
    with nb id_re show ?thesis by (simp add: re_sub_Bol)
  qed
  with endElement_purl_id [OF assms(2,3)] show ?thesis by auto
qed

theorem strip_again_iff_witness:
  "base_url (entry_of [(''id'', ''/obo/foo/x''), (''url'', ''http://e.org/x''), (''type'', ''302'')])
     = ''/obo/'' @ lower ''FOO'' \<and>
   current (endElement (entry_of [(''id'', ''/obo/foo/x''), (''url'', ''http://e.org/x''), (''type'', ''302'')])
              ''purl'') ''id'' = Some ''/x'' \<and>
   re_sub (Bol # map Lit ''/obo/foo'') ''/x'' = ''/x''"
proof -
  let ?h = "entry_of [(''id'', ''/obo/foo/x''), (''url'', ''http://e.org/x''), (''type'', ''302'')]"
  have 1: "base_url ?h = ''/obo/'' @ lower ''FOO''"
    by (simp add: entry_of_simps lower_def lower_char_def)
  have 2: "re_compile (''^'' @ base_url ?h) = Some (Bol # map Lit ''/obo/foo'')"
    using compile_foo by (simp add: entry_of_simps)
  have 3: "re_match (Bol # map Lit ''/obo/foo'') ''/obo/foo/x''"
    by (simp add: re_match_def)
  have 4: "heap ?h (entry ?h) ''id'' = Some ''/obo/foo/x''"
    by (simp add: entry_of_simps heap_entry_of)
  have u: "heap ?h (entry ?h) ''url'' = Some ''http://e.org/x''"
    by (simp add: entry_of_simps heap_entry_of)
  have um: "url_re_match ''http://e.org/x''"
    by (simp add: url_re_match_def scheme_match_def)
  have t: "heap ?h (entry ?h) ''type'' = Some ''302''"
    by (simp add: entry_of_simps heap_entry_of)
  from endElement_purl_exact [OF 4 2 3 u um t]
  obtain h' where h': "endElement ?h ''purl'' = Inr h'"
    by blast
  have 5: "re_sub (Bol # map Lit ''/obo/foo'') ''/obo/foo/x'' = ''/x''"
    by (simp add: re_sub_Bol re_match_def)
  have 6: "\<not> re_match (Bol # map Lit ''/obo/foo'') ''/x''"
    by (simp add: re_match_def lower_char_def)
  from strip_again_iff [OF 1 2 h'] 4 5 6 h' 1 show ?thesis
    by (simp add: current_def)
qed

text \<open>
  Claim C5 as stated fails: the id \<^verbatim>\<open>/obo/foo/obo/foo/x\<close> of project \<^verbatim>\<open>foo\<close> is stored as
  \<^verbatim>\<open>/obo/foo/x\<close>, and stripping that again gives \<^verbatim>\<open>/x\<close>.
\<close>

theorem strip_again_counterexample:
  "current (endElement (entry_of [(''id'', ''/obo/foo/obo/foo/x''), (''url'', ''http://e.org/x''),
                                  (''type'', ''302'')]) ''purl'') ''id'' = Some ''/obo/foo/x'' \<and>
   map_option (\<lambda>id_re. re_sub id_re ''/obo/foo/x'') (re_compile (''^'' @ ''/obo/foo'')) = Some ''/x''"
  by code_simp

subsection \<open>The base path as a pattern\<close>

lemma prefix_check_literal:
  assumes "set (base_url h) \<inter> set re_special = {}" and "CHR ''.'' \<notin> set (base_url h)"
    and "heap h (entry h) ''id'' = Some ident"
  shows "(lower (take (length (base_url h)) ident) \<noteq> lower (base_url h) \<longrightarrow>
            endElement h ''purl'' =
              Inl (ValueError (prefix_mismatch_msg (count h) ident (base_url h)))) \<and>
         (lower (take (length (base_url h)) ident) = lower (base_url h) \<longrightarrow>
            (\<forall>h'. endElement h ''purl'' = Inr h' \<longrightarrow>
                  heap h' (entry h') ''id'' = Some (drop (length (base_url h)) ident)))"
proof -
  from assms(1,2) have c: "re_compile (''^'' @ base_url h) = Some (Bol # map Lit (base_url h))"
    by (simp add: re_compile_caret re_items_literal)
  have m: "re_match (Bol # map Lit (base_url h)) s \<longleftrightarrow>
             lower (take (length (base_url h)) s) = lower (base_url h)" for s
    by (simp add: re_match_def re_match_here_literal)
  have s: "re_sub (Bol # map Lit (base_url h)) ident =
             (if re_match (Bol # map Lit (base_url h)) ident
              then drop (length (base_url h)) ident else ident)"
  proof -
    have "Bol \<notin> set (map Lit (base_url h))" by auto
    then show ?thesis by (simp add: re_sub_Bol)
  qed
  have "lower (take (length (base_url h)) ident) \<noteq> lower (base_url h) \<Longrightarrow>
          endElement h ''purl'' = Inl (ValueError (prefix_mismatch_msg (count h) ident (base_url h)))"
    using endElement_purl_mismatch [OF assms(3) c] m by simp
  moreover have "heap h' (entry h') ''id'' = Some (drop (length (base_url h)) ident)"
    if "lower (take (length (base_url h)) ident) = lower (base_url h)"
      and "endElement h ''purl'' = Inr h'" for h'
    using endElement_purl_id [OF c that(2)] assms(3) m s that(1) by auto
  ultimately show ?thesis by blast
qed

text \<open>
  Claim C3, at the project id \<^verbatim>\<open>a.b\<close>. The id \<^verbatim>\<open>/obo/axb/c\<close> does not begin with the base
  path \<^verbatim>\<open>/obo/a.b\<close>, in any case of the letters, and yet the run does not raise the
  mismatch error; it writes the entry \<^verbatim>\<open>exact: /c\<close>. The \<^verbatim>\<open>.\<close> of the project id is
  read as the wildcard of the regular expression.
\<close>

theorem unescaped_base_url:
  "lower (take (length ''/obo/a.b'') ''/obo/axb/c'') \<noteq> lower ''/obo/a.b'' \<and>
   main ''a.b'' (Element ''purls'' [purl_elem ''/obo/axb/c'' ''302'' ''http://e.org/c'']) =
     ([header_template ''/obo/a.b'' ''A.B'' ''/obo/a.b'' ''a.b'' ''a.b'',
       entry_template ''exact'' ''/c'' ''http://e.org/c''], None)"
  by code_simp

subsection \<open>The record counter and the order of the checks\<close>

lemma endElement_count: "endElement h name = Inr h' \<Longrightarrow> count h' = count h"
  by (auto simp: endElement_def entry_set_def split: if_splits dest: end_purl_entry_count)

lemma handle_event_count:
  "handle_event h e = Inr h' \<Longrightarrow> count h' = count h + (if e = StartElement ''purl'' then 1 else 0)"
  by (cases e) (auto simp: startElement_def characters_def Let_def dest: endElement_count)

lemma handle_events_count:
  "handle_events h es = Inr h' \<Longrightarrow> count h' = count h + purl_starts es"
proof (induction es arbitrary: h)
  case Nil
  then show ?case by (simp add: purl_starts_def)
next
  case (Cons e es)
  then obtain h1 where 1: "handle_event h e = Inr h1" and 2: "handle_events h1 es = Inr h'"
    by (auto split: sum.splits)
  from Cons.IH [OF 2] handle_event_count [OF 1] show ?case
    by (simp add: purl_starts_def)
qed

text \<open>
  Claim C8. The end of a record checks, in this order: that the id is there, that it
  matches the base path, that the URL is there, that the URL has the accepted shape, that
  the type is there, that the type is known. The first check that fails decides the
  error, whatever the later fields are, and every message ends with or contains the
  decimal of \<^verbatim>\<open>self.count\<close>, which after any sequence of events is the number of record
  starts among them: the 1-based index of the record that started last.
\<close>

theorem validation_order:
  \<open>(heap h (entry h) ''id'' = None \<longrightarrow>
      endElement h ''purl'' = Inl (ValueError (''No <id> for <purl> '' @ str_of_nat (count h)))) \<and>
   (\<forall>ident id_re.
      heap h (entry h) ''id'' = Some ident \<and> re_compile (''^'' @ base_url h) = Some id_re \<longrightarrow>
      (\<not> re_match id_re ident \<longrightarrow>
         endElement h ''purl'' =
           Inl (ValueError (''In <purl> '' @ str_of_nat (count h) @ '' the <id> "'' @ ident @
                            ''" does not begin with base_url "'' @ base_url h @ ''"''))) \<and>
      (re_match id_re ident \<longrightarrow>
         (heap h (entry h) ''url'' = None \<longrightarrow>
            endElement h ''purl'' = Inl (ValueError (''No <url> for <purl> '' @ str_of_nat (count h)))) \<and>
         (\<forall>url. heap h (entry h) ''url'' = Some url \<longrightarrow>
            (\<not> url_re_match url \<longrightarrow>
               endElement h ''purl'' =
                 Inl (ValueError (''In <purl> '' @ str_of_nat (count h) @ '' the <url> "'' @ url @
                                  ''" is not an absolute HTTP or FTP URL''))) \<and>
            (url_re_match url \<longrightarrow>
               (heap h (entry h) ''type'' = None \<longrightarrow>
                  endElement h ''purl'' =
                    Inl (ValueError (''No <type> for <purl> '' @ str_of_nat (count h)))) \<and>
               (\<forall>ty. heap h (entry h) ''type'' = Some ty \<and> ty \<noteq> ''302'' \<and> ty \<noteq> ''partial'' \<longrightarrow>
                  endElement h ''purl'' =
                    Inl (ValueError (''Unknown type "'' @ ty @ ''" for <purl> '' @
                                     str_of_nat (count h)))))))) \<and>
   (\<forall>base es. handle_events (OCLCHandler base) es = Inr h \<longrightarrow> count h = purl_starts es)\<close>
proof -
  have "\<forall>base es. handle_events (OCLCHandler base) es = Inr h \<longrightarrow> count h = purl_starts es"
    by (auto dest: handle_events_count simp: OCLCHandler_def)
  then show ?thesis
    unfolding endElement_def end_purl_def entry_set_def Let_def
      no_field_msg_def prefix_mismatch_msg_def invalid_url_msg_def unknown_type_msg_def
    by simp
qed

theorem validation_order_witness:
  \<open>endElement (entry_of [(''type'', ''bogus'')]) ''purl'' = Inl (ValueError ''No <id> for <purl> 1'') \<and>
   endElement (entry_of [(''id'', ''/obo/bar/x'')]) ''purl'' =
     Inl (ValueError ''In <purl> 1 the <id> "/obo/bar/x" does not begin with base_url "/obo/foo"'') \<and>
   endElement (entry_of [(''id'', ''/obo/foo/x''), (''type'', ''bogus'')]) ''purl'' =
     Inl (ValueError ''No <url> for <purl> 1'') \<and>
   endElement (entry_of [(''id'', ''/obo/foo/x''), (''url'', ''mailto:x''), (''type'', ''bogus'')]) ''purl'' =
     Inl (ValueError ''In <purl> 1 the <url> "mailto:x" is not an absolute HTTP or FTP URL'') \<and>
   endElement (entry_of [(''id'', ''/obo/foo/x''), (''url'', ''http://e.org/x'')]) ''purl'' =
     Inl (ValueError ''No <type> for <purl> 1'') \<and>
   endElement (entry_of [(''id'', ''/obo/foo/x''), (''url'', ''http://e.org/x''), (''type'', ''bogus'')]) ''purl'' =
     Inl (ValueError ''Unknown type "bogus" for <purl> 1'') \<and>
   count (entry_of []) = purl_starts [StartElement ''purl'']\<close>
proof -
  note ev = entry_of_simps heap_entry_of str_of_nat_1 compile_foo re_match_def lower_char_def
    url_re_match_def scheme_match_def
  have 1: \<open>endElement (entry_of [(''type'', ''bogus'')]) ''purl'' =
             Inl (ValueError ''No <id> for <purl> 1'')\<close>
    using validation_order [of "entry_of [(''type'', ''bogus'')]"]
    by (simp add: ev)
  have 2: \<open>endElement (entry_of [(''id'', ''/obo/bar/x'')]) ''purl'' =
     Inl (ValueError ''In <purl> 1 the <id> "/obo/bar/x" does not begin with base_url "/obo/foo"'')\<close>
    using validation_order [of "entry_of [(''id'', ''/obo/bar/x'')]"]
    by (simp add: ev)
  have 3: \<open>endElement (entry_of [(''id'', ''/obo/foo/x''), (''type'', ''bogus'')]) ''purl'' =
     Inl (ValueError ''No <url> for <purl> 1'')\<close>
    using validation_order [of "entry_of [(''id'', ''/obo/foo/x''), (''type'', ''bogus'')]"]
    by (simp add: ev)
  have 4: \<open>endElement (entry_of [(''id'', ''/obo/foo/x''), (''url'', ''mailto:x''), (''type'', ''bogus'')]) ''purl'' =
     Inl (ValueError ''In <purl> 1 the <url> "mailto:x" is not an absolute HTTP or FTP URL'')\<close>
    using validation_order [of "entry_of [(''id'', ''/obo/foo/x''), (''url'', ''mailto:x''), (''type'', ''bogus'')]"]
    by (simp add: ev)
  have 5: \<open>endElement (entry_of [(''id'', ''/obo/foo/x''), (''url'', ''http://e.org/x'')]) ''purl'' =
     Inl (ValueError ''No <type> for <purl> 1'')\<close>
    using validation_order [of "entry_of [(''id'', ''/obo/foo/x''), (''url'', ''http://e.org/x'')]"]
    by (simp add: ev)
  have 6: \<open>endElement (entry_of [(''id'', ''/obo/foo/x''), (''url'', ''http://e.org/x''), (''type'', ''bogus'')]) ''purl'' =
     Inl (ValueError ''Unknown type "bogus" for <purl> 1'')\<close>
    using validation_order [of "entry_of [(''id'', ''/obo/foo/x''), (''url'', ''http://e.org/x''), (''type'', ''bogus'')]"]
    by (simp add: ev)
  have "handle_events (OCLCHandler ''/obo/foo'') [StartElement ''purl''] = Inr (entry_of [])"
    by (simp add: entry_of_def)
  with validation_order [of "entry_of []"]
  have 7: "count (entry_of []) = purl_starts [StartElement ''purl'']"
    by blast
  from 1 2 3 4 5 6 7 show ?thesis by blast
qed

subsection \<open>The content buffer\<close>

lemma handle_events_append:
  "handle_events h (xs @ ys) =
     (case handle_events h xs of Inl x \<Rightarrow> Inl x | Inr h1 \<Rightarrow> handle_events h1 ys)"
  by (induction xs arbitrary: h) (auto split: sum.splits)

lemma endElement_entry_content:
  "endElement h name = Inr h' \<Longrightarrow> entry h' = entry h \<and> content h' = content h"
  by (auto simp: endElement_def entry_set_def split: if_splits dest: end_purl_entry_count)

lemma no_start_content:
  "\<not> list_ex is_start es \<Longrightarrow> handle_events h es = Inr h' \<Longrightarrow>
     content h' = content h @ chunks es \<and> entry h' = entry h"
proof (induction es arbitrary: h)
  case Nil
  then show ?case by simp
next
  case (Cons e es)
  from Cons.prems obtain h1 where 1: "handle_event h e = Inr h1" and 2: "handle_events h1 es = Inr h'"
    by (auto split: sum.splits)
  from Cons.prems have ns: "\<not> list_ex is_start es" and e: "\<not> is_start e" by auto
  from Cons.IH [OF ns 2] have ih: "content h' = content h1 @ chunks es" "entry h' = entry h1" by auto
  show ?case
  proof (cases e)
    case (StartElement n)
    with e show ?thesis by simp
  next
    case (Characters c)
    with 1 ih show ?thesis by (auto simp: characters_def)
  next
    case (EndElement n)
    with 1 ih show ?thesis by (auto dest: endElement_entry_content)
  qed
qed

lemma endElement_field:
  "name \<in> set [''type'', ''id'', ''url''] \<Longrightarrow> endElement h name = Inr h' \<Longrightarrow>
     heap h' (entry h') name = Some (strip (content h)) \<and> strip (content h) \<noteq> []"
  by (auto simp: endElement_def entry_set_def split: if_splits)

text \<open>
  Claim C10. Every element start empties the content buffer, whatever the element is.
  So when a tracked field ends, and the last element start before that end was the
  start of some child element, the value stored for the field is the stripped character
  data that arrived after that start; what came before it is lost.
\<close>

theorem start_resets_content:
  "content (startElement h any) = [] \<and>
   (name \<in> set [''type'', ''id'', ''url''] \<and> \<not> list_ex is_start post \<and>
    handle_events h (pre @ [StartElement child] @ post @ [EndElement name]) = Inr h' \<longrightarrow>
      heap h' (entry h') name = Some (strip (chunks post)))"
proof -
  have "heap h' (entry h') name = Some (strip (chunks post))"
    if n: "name \<in> set [''type'', ''id'', ''url'']" and ns: "\<not> list_ex is_start post"
      and run: "handle_events h (pre @ [StartElement child] @ post @ [EndElement name]) = Inr h'"
  proof -
    from run obtain h1 where 1: "handle_events h pre = Inr h1"
      and 2: "handle_events h1 ([StartElement child] @ post @ [EndElement name]) = Inr h'"
      by (auto simp: handle_events_append split: sum.splits)
    from 2 obtain h2 where 3: "handle_events (startElement h1 child) post = Inr h2"
      and 4: "endElement h2 name = Inr h'"
      by (auto simp: handle_events_append split: sum.splits)
    have "content (startElement h1 child) = []"
      by (simp add: startElement_def Let_def)
    with no_start_content [OF ns 3] have "content h2 = chunks post" by simp
    with endElement_field [OF n 4] show ?thesis by simp
  qed
  moreover have "content (startElement h any) = []"
    by (simp add: startElement_def Let_def)
  ultimately show ?thesis by blast
qed

theorem start_resets_content_witness:
  "\<not> list_ex is_start [Characters ''def'', EndElement ''b'', Characters ''ghi''] \<and>
   current (handle_events (OCLCHandler ''/obo/foo'')
      ([StartElement ''id'', Characters ''abc''] @ [StartElement ''b''] @
       [Characters ''def'', EndElement ''b'', Characters ''ghi''] @ [EndElement ''id''])) ''id''
     = Some ''defghi''"
proof -
  let ?post = "[Characters ''def'', EndElement ''b'', Characters ''ghi'']"
  let ?es = "[StartElement ''id'', Characters ''abc''] @ [StartElement ''b''] @ ?post @ [EndElement ''id'']"
  have ns: "\<not> list_ex is_start ?post" by simp
  have "\<exists>h'. handle_events (OCLCHandler ''/obo/foo'') ?es = Inr h'"
    by (simp add: startElement_def characters_def endElement_def strip_def isspace_def entry_set_def)
  then obtain h' where run: "handle_events (OCLCHandler ''/obo/foo'') ?es = Inr h'" ..
  have s: "strip (chunks ?post) = ''defghi''"
    by (simp add: strip_def isspace_def)
  from start_resets_content [of "OCLCHandler ''/obo/foo''" "''b''" "''id''" ?post "[StartElement ''id'', Characters ''abc'']" "''b''" h']
    run ns s
  show ?thesis by (simp add: current_def)
qed

text \<open>
  Claim C6. A second occurrence of a tracked field with non-empty stripped content
  overwrites the first: two occurrences in a row leave the handler in the state that the
  second alone leaves it in, and whatever the events between two occurrences are, the
  current entry then holds the stripped content of the last one. This is the value that
  the end of the record validates and that the YAML file shows.
\<close>

theorem last_write_wins:
  assumes "name \<in> set [''type'', ''id'', ''url'']" and "strip c1 \<noteq> []" and "strip c2 \<noteq> []"
  shows "handle_events h (field_events name c1 @ field_events name c2) =
           handle_events h (field_events name c2) \<and>
         (\<forall>mid h1. handle_events h (field_events name c1 @ mid) = Inr h1 \<longrightarrow>
            (\<exists>h2. handle_events h (field_events name c1 @ mid @ field_events name c2) = Inr h2 \<and>
                  heap h2 (entry h2) name = Some (strip c2)))"
proof -
  have one: "handle_events g (field_events name c) =
               Inr ((entry_set (g\<lparr>content := c\<rparr>) name (strip c)))" if "strip c \<noteq> []" for g c
    using assms(1) that
    by (auto simp: field_events_def startElement_def characters_def endElement_def Let_def)
  have "handle_events h (field_events name c1 @ field_events name c2) =
           handle_events h (field_events name c2)"
    using assms(2,3) by (simp add: handle_events_append one entry_set_def)
  moreover have "\<exists>h2. handle_events h (field_events name c1 @ mid @ field_events name c2) = Inr h2 \<and>
                  heap h2 (entry h2) name = Some (strip c2)"
    if "handle_events h (field_events name c1 @ mid) = Inr h1" for mid h1
    using that assms(3)
    by (simp add: handle_events_append [of _ "field_events name c1 @ mid", simplified] one entry_set_def)
  ultimately show ?thesis by blast
qed

theorem last_write_wins_witness:
  "strip ''/obo/foo/first'' \<noteq> [] \<and> strip '' /obo/foo/last '' \<noteq> [] \<and>
   current (handle_events (entry_of [])
              (field_events ''id'' ''/obo/foo/first'' @ field_events ''id'' '' /obo/foo/last''))
     ''id'' = Some ''/obo/foo/last'' \<and>
   main ''FOO''
     (Element ''purls''
        [Element ''purl''
           [Element ''id'' [Text ''/obo/foo/first''], Element ''id'' [Text '' /obo/foo/last ''],
            Element ''type'' [Text ''302''], Element ''url'' [Text ''http://example.org/x'']]]) =
     ([header_template ''/obo/foo'' ''FOO'' ''/obo/foo'' ''foo'' ''foo'',
       entry_template ''exact'' ''/last'' ''http://example.org/x''], None)"
proof -
  have 1: "''id'' \<in> set [''type'', ''id'', ''url'']" by simp
  have 2: "strip ''/obo/foo/first'' \<noteq> []" by (simp add: strip_def isspace_def)
  have 3: "strip '' /obo/foo/last'' \<noteq> []" "strip '' /obo/foo/last '' \<noteq> []"
    by (simp_all add: strip_def isspace_def)
  have 4: "current (handle_events (entry_of []) (field_events ''id'' '' /obo/foo/last'')) ''id''
             = Some ''/obo/foo/last''"
    by (simp add: field_events_def current_def startElement_def characters_def endElement_def
        entry_set_def strip_def isspace_def)
  have 5: "main ''FOO''
     (Element ''purls''
        [Element ''purl''
           [Element ''id'' [Text ''/obo/foo/first''], Element ''id'' [Text '' /obo/foo/last ''],
            Element ''type'' [Text ''302''], Element ''url'' [Text ''http://example.org/x'']]]) =
     ([header_template ''/obo/foo'' ''FOO'' ''/obo/foo'' ''foo'' ''foo'',
       entry_template ''exact'' ''/last'' ''http://example.org/x''], None)"
    by code_simp
  from last_write_wins [OF 1 2 3(1), of "entry_of []"] 2 3 4 5 show ?thesis
    by simp
qed

subsection \<open>What is written\<close>

lemma purl_ends_append: "purl_ends (xs @ ys) = purl_ends xs + purl_ends ys"
  by (simp add: purl_ends_def)

lemma purl_ends_concat: "purl_ends (concat xss) = sum_list (map purl_ends xss)"
  by (induction xss) (simp_all add: purl_ends_append, simp add: purl_ends_def)

lemma purl_ends_sax_events: "purl_ends (sax_events doc) = purl_count doc"
proof (induction doc)
  case (Text s)
  show ?case by (simp add: purl_ends_def)
next
  case (Element name children)
  then have "map purl_ends (map sax_events children) = map purl_count children"
    by simp
  then have "purl_ends (concat (map sax_events children)) = sum_list (map purl_count children)"
    by (simp only: purl_ends_concat)
  then show ?case
    by (simp add: purl_ends_append) (simp add: purl_ends_def)
qed

lemma endElement_lists:
  "endElement h name = Inr h' \<Longrightarrow>
     length (exact h') + length (prefix h') =
       length (exact h) + length (prefix h) + (if name = ''purl'' then 1 else 0)"
  unfolding endElement_def end_purl_def entry_set_def Let_def
  by (auto split: if_splits option.splits)

lemma handle_event_lists:
  "handle_event h e = Inr h' \<Longrightarrow>
     length (exact h') + length (prefix h') =
       length (exact h) + length (prefix h) + purl_ends [e]"
  by (cases e) (auto simp: startElement_def characters_def Let_def purl_ends_def dest: endElement_lists)

lemma handle_events_lists:
  "handle_events h es = Inr h' \<Longrightarrow>
     length (exact h') + length (prefix h') = length (exact h) + length (prefix h) + purl_ends es"
proof (induction es arbitrary: h)
  case Nil
  then show ?case by (simp add: purl_ends_def)
next
  case (Cons e es)
  then obtain h1 where 1: "handle_event h e = Inr h1" and 2: "handle_events h1 es = Inr h'"
    by (auto split: sum.splits)
  from Cons.IH [OF 2] handle_event_lists [OF 1] purl_ends_append [of "[e]" es]
  show ?case by simp
qed

lemma has_fields_upd: "has_fields d \<Longrightarrow> has_fields (d(k \<mapsto> v))"
  by (auto simp: has_fields_def entry_fields_def split: option.splits)

lemma listed_ok_init: "listed_ok (OCLCHandler base)"
  by (simp add: listed_ok_def OCLCHandler_def)

lemma listed_ok_start: "listed_ok h \<Longrightarrow> listed_ok (startElement h name)"
  by (auto simp: listed_ok_def startElement_def Let_def list_all_iff intro: less_SucI)

lemma listed_ok_characters: "listed_ok h \<Longrightarrow> listed_ok (characters h chunk)"
  by (simp add: listed_ok_def characters_def)

lemma listed_ok_entry_set: "listed_ok h \<Longrightarrow> listed_ok (entry_set h k v)"
  by (auto simp: listed_ok_def entry_set_def list_all_iff has_fields_upd)

lemma listed_ok_append_exact:
  "listed_ok h \<Longrightarrow> has_fields (heap h (entry h)) \<Longrightarrow>
     listed_ok (h\<lparr>exact := exact h @ [entry h]\<rparr>)"
  by (auto simp: listed_ok_def)

lemma listed_ok_append_prefix:
  "listed_ok h \<Longrightarrow> has_fields (heap h (entry h)) \<Longrightarrow>
     listed_ok (h\<lparr>prefix := prefix h @ [entry h]\<rparr>)"
  by (auto simp: listed_ok_def)

lemma listed_ok_end_purl:
  assumes "listed_ok h" and "end_purl h = Inr h'"
  shows "listed_ok h'"
proof -
  from assms(2) obtain ident id_re url where
    h': "h' = (entry_set (entry_set h ''id'' (re_sub id_re ident)) ''rule'' ''exact'')
                \<lparr>exact := exact h @ [entry h]\<rparr> \<or>
         h' = (entry_set (entry_set h ''id'' (re_sub id_re ident)) ''rule'' ''prefix'')
                \<lparr>prefix := prefix h @ [entry h]\<rparr>"
    and url: "heap h (entry h) ''url'' = Some url"
    unfolding end_purl_def Let_def
    by (auto split: option.splits if_splits simp: entry_set_def)
  let ?g = "\<lambda>rule. entry_set (entry_set h ''id'' (re_sub id_re ident)) ''rule'' rule"
  have ok: "listed_ok (?g rule)" for rule
    using assms(1) by (simp add: listed_ok_entry_set)
  have f: "has_fields (heap (?g rule) (entry (?g rule)))" for rule
    using url by (simp add: entry_set_def has_fields_def entry_fields_def)
  have e: "exact (?g rule) = exact h" "prefix (?g rule) = prefix h" "entry (?g rule) = entry h" for rule
    by (simp_all add: entry_set_def)
  from listed_ok_append_exact [OF ok f, of "''exact''"] listed_ok_append_prefix [OF ok f, of "''prefix''"] h'
  show ?thesis by (auto simp: e)
qed

lemma listed_ok_endElement: "listed_ok h \<Longrightarrow> endElement h name = Inr h' \<Longrightarrow> listed_ok h'"
  by (auto simp: endElement_def listed_ok_entry_set listed_ok_end_purl split: if_splits)

lemma listed_ok_handle_events: "listed_ok h \<Longrightarrow> handle_events h es = Inr h' \<Longrightarrow> listed_ok h'"
proof (induction es arbitrary: h)
  case Nil
  then show ?case by simp
next
  case (Cons e es)
  then obtain h1 where 1: "handle_event h e = Inr h1" and 2: "handle_events h1 es = Inr h'"
    by (auto split: sum.splits)
  from 1 Cons.prems(1) have "listed_ok h1"
    by (cases e) (auto simp: listed_ok_start listed_ok_characters dest: listed_ok_endElement)
  with Cons.IH 2 show ?case by blast
qed

lemma sort_keys_ok:
  "list_all (\<lambda>a. has_fields (hp a)) as \<Longrightarrow>
     \<exists>ks. sort_keys hp as = Inr ks \<and> map snd ks = as \<and>
          list_all (\<lambda>(k, a). \<exists>rule ident url. entry_fields (hp a) = Some (rule, ident, url) \<and> k = length ident) ks"
proof (induction as)
  case Nil
  show ?case by simp
next
  case (Cons a as)
  then obtain ks where ks: "sort_keys hp as = Inr ks" "map snd ks = as"
    "list_all (\<lambda>(k, a). \<exists>rule ident url. entry_fields (hp a) = Some (rule, ident, url) \<and> k = length ident) ks"
    by auto
  from Cons.prems obtain rule ident url where f: "entry_fields (hp a) = Some (rule, ident, url)"
    by (auto simp: has_fields_def)
  then have "hp a ''id'' = Some ident"
    by (auto simp: entry_fields_def split: option.splits)
  with ks f show ?case by (simp add: getitem_def)
qed

lemma fields_all:
  "list_all (\<lambda>a. has_fields (hp a)) as \<Longrightarrow> \<exists>ts. map (\<lambda>a. entry_fields (hp a)) as = map Some ts"
proof (induction as)
  case Nil
  show ?case by simp
next
  case (Cons a as)
  then obtain ts where ts: "map (\<lambda>a. entry_fields (hp a)) as = map Some ts" by auto
  from Cons.prems obtain t where "entry_fields (hp a) = Some t"
    by (auto simp: has_fields_def)
  with ts have "map (\<lambda>a. entry_fields (hp a)) (a # as) = map Some (t # ts)" by simp
  then show ?case by blast
qed

lemma write_entries_fields:
  "map (\<lambda>a. entry_fields (hp a)) as = map Some ts \<Longrightarrow>
     write_entries hp as yaml_file = (yaml_file @ map block ts, None)"
proof (induction as arbitrary: ts yaml_file)
  case Nil
  then show ?case by simp
next
  case (Cons a as)
  from Cons.prems obtain t ts' where ts: "ts = t # ts'" and f: "entry_fields (hp a) = Some t"
    and r: "map (\<lambda>a. entry_fields (hp a)) as = map Some ts'"
    by (cases ts) auto
  obtain rule ident url where t: "t = (rule, ident, url)" by (cases t)
  from f t have g: "hp a ''rule'' = Some rule" "hp a ''id'' = Some ident" "hp a ''url'' = Some url"
    by (auto simp: entry_fields_def split: option.splits)
  from Cons.IH [OF r, of "yaml_file @ [entry_template rule ident url]"] g ts t
  show ?case by (simp add: getitem_def block_def)
qed

lemma sorted_reverse_ok:
  assumes "list_all (\<lambda>a. has_fields (hp a)) as"
  shows "\<exists>sorted_prefix. sorted_reverse hp as = Inr sorted_prefix \<and>
           length sorted_prefix = length as \<and> set sorted_prefix = set as"
proof -
  from sort_keys_ok [OF assms] obtain ks where ks: "sort_keys hp as = Inr ks" "map snd ks = as"
    by blast
  have "set (map snd (rev (sort_key fst (rev ks)))) = set (map snd ks)"
    by simp
  moreover have "length (map snd (rev (sort_key fst (rev ks)))) = length (map snd ks)"
    by simp
  ultimately show ?thesis
    using ks by (simp add: sorted_reverse_def)
qed

lemma sax_parse_listed_ok: "sax_parse (OCLCHandler base) doc = Inr h \<Longrightarrow> listed_ok h"
  unfolding sax_parse_def by (rule listed_ok_handle_events [OF listed_ok_init])

lemma sax_parse_lists:
  "sax_parse (OCLCHandler base) doc = Inr h \<Longrightarrow>
     length (exact h) + length (prefix h) = purl_count doc"
  unfolding sax_parse_def
  by (drule handle_events_lists) (simp add: OCLCHandler_def purl_ends_sax_events)

lemma main_parsed:
  assumes "sax_parse (OCLCHandler (''/obo/'' @ lower idspace)) doc = Inr h"
  shows "\<exists>sorted_prefix ts.
           sorted_reverse (heap h) (prefix h) = Inr sorted_prefix \<and>
           length sorted_prefix = length (prefix h) \<and>
           map (\<lambda>a. entry_fields (heap h a)) (exact h @ sorted_prefix) = map Some ts \<and>
           main idspace doc =
             (if exact h @ prefix h = [] then ([], Some (ValueError no_entries_msg))
              else (header_template (''/obo/'' @ lower idspace) (upper idspace)
                      (''/obo/'' @ lower idspace) (lower idspace) (lower idspace) # map block ts,
                    None))"
proof -
  from sax_parse_listed_ok [OF assms] have ok: "listed_ok h" .
  then have p: "list_all (\<lambda>a. has_fields (heap h a)) (prefix h)"
    and e: "list_all (\<lambda>a. has_fields (heap h a)) (exact h)"
    by (auto simp: listed_ok_def list_all_iff)
  from sorted_reverse_ok [OF p] obtain sp where sp: "sorted_reverse (heap h) (prefix h) = Inr sp"
    "length sp = length (prefix h)" "set sp = set (prefix h)"
    by blast
  from e p sp(3) have "list_all (\<lambda>a. has_fields (heap h a)) (exact h @ sp)"
    by (auto simp: list_all_iff)
  from fields_all [OF this] obtain ts where
    ts: "map (\<lambda>a. entry_fields (heap h a)) (exact h @ sp) = map Some ts"
    by blast
  note w = write_entries_fields [OF ts]
  have l: "length (exact h @ sp) = length (exact h @ prefix h)"
    using sp(2) by simp
  show ?thesis
  proof (cases "exact h @ prefix h = []")
    case True
    with l have "exact h @ sp = []" by (metis length_0_conv)
    then have "main idspace doc = ([], Some (ValueError no_entries_msg))"
      using assms sp(1) by (simp add: main_def Let_def)
    with True sp ts show ?thesis by simp
  next
    case False
    with l have "exact h @ sp \<noteq> []" by (metis length_0_conv)
    then have "main idspace doc =
             (header_template (''/obo/'' @ lower idspace) (upper idspace)
                      (''/obo/'' @ lower idspace) (lower idspace) (lower idspace) # map block ts,
                    None)"
      using assms sp(1) w by (simp add: main_def Let_def)
    with False sp ts show ?thesis by simp
  qed
qed

text \<open>
  Claim C9. When the parse of a document with at least one record element raises
  nothing, the run writes the header and then as many entry blocks as the document has
  record elements, and raises nothing.
\<close>

theorem entry_count:
  assumes "sax_parse (OCLCHandler (''/obo/'' @ lower idspace)) doc = Inr h"
    and "0 < purl_count doc"
  shows "\<exists>ts. main idspace doc =
                (header_template (''/obo/'' @ lower idspace) (upper idspace)
                   (''/obo/'' @ lower idspace) (lower idspace) (lower idspace) # map block ts,
                 None) \<and>
              length ts = purl_count doc"
proof -
  from main_parsed [OF assms(1)] obtain sp ts where
    sp: "length sp = length (prefix h)"
    and ts: "map (\<lambda>a. entry_fields (heap h a)) (exact h @ sp) = map Some ts"
    and m: "main idspace doc =
             (if exact h @ prefix h = [] then ([], Some (ValueError no_entries_msg))
              else (header_template (''/obo/'' @ lower idspace) (upper idspace)
                      (''/obo/'' @ lower idspace) (lower idspace) (lower idspace) # map block ts,
                    None))"
    by blast
  from ts have "length ts = length (exact h @ sp)"
    by (metis length_map)
  with sp sax_parse_lists [OF assms(1)] have n: "length ts = purl_count doc" by simp
  with assms(2) sax_parse_lists [OF assms(1)] have "exact h @ prefix h \<noteq> []" by auto
  with m n show ?thesis by auto
qed

theorem entry_count_witness:
  "0 < purl_count two_records \<and> \<not> isl (sax_parse (OCLCHandler (''/obo/'' @ lower ''FOO'')) two_records) \<and>
   length (fst (main ''FOO'' two_records)) = 1 + purl_count two_records"
proof -
  have p: "\<not> isl (sax_parse (OCLCHandler (''/obo/'' @ lower ''FOO'')) two_records)"
    by code_simp
  then obtain h where h: "sax_parse (OCLCHandler (''/obo/'' @ lower ''FOO'')) two_records = Inr h"
    by (auto dest: parsed_cases)
  have c: "0 < purl_count two_records"
    by (simp add: two_records_def purl_elem_def)
  from entry_count [OF h c] p c show ?thesis by auto
qed

text \<open>
  Claim C7. When the parse ends with both lists empty, in particular when the document
  has no record element, and for a document that is one empty element, the run raises
  \<^verbatim>\<open>No entries to migrate\<close> and writes nothing. An exception of the parse ends the run
  with nothing written. So whenever anything was written, the parse raised nothing and
  there was an entry.
\<close>

theorem no_entries:
  "(sax_parse (OCLCHandler (''/obo/'' @ lower idspace)) doc = Inr h \<and> exact h @ prefix h = [] \<longrightarrow>
      main idspace doc = ([], Some (ValueError no_entries_msg))) \<and>
   (sax_parse (OCLCHandler (''/obo/'' @ lower idspace)) doc = Inr h \<and> purl_count doc = 0 \<longrightarrow>
      main idspace doc = ([], Some (ValueError no_entries_msg))) \<and>
   (root \<notin> set [''purl'', ''type'', ''id'', ''url''] \<longrightarrow>
      main idspace (Element root []) = ([], Some (ValueError no_entries_msg))) \<and>
   (sax_parse (OCLCHandler (''/obo/'' @ lower idspace)) doc = Inl x \<longrightarrow>
      main idspace doc = ([], Some x)) \<and>
   (fst (main idspace doc) \<noteq> [] \<longrightarrow>
      (\<exists>g. sax_parse (OCLCHandler (''/obo/'' @ lower idspace)) doc = Inr g \<and>
           exact g @ prefix g \<noteq> []))"
proof -
  have 1: "main idspace doc = ([], Some (ValueError no_entries_msg))"
    if "sax_parse (OCLCHandler (''/obo/'' @ lower idspace)) doc = Inr h" "exact h @ prefix h = []"
    for doc h
    using main_parsed [OF that(1)] that(2) by auto
  have 2: "main idspace doc = ([], Some (ValueError no_entries_msg))"
    if "sax_parse (OCLCHandler (''/obo/'' @ lower idspace)) doc = Inr h" "purl_count doc = 0"
    using sax_parse_lists [OF that(1)] that(2) 1 [OF that(1)] by simp
  have 3: "main idspace (Element root []) = ([], Some (ValueError no_entries_msg))"
    if "root \<notin> set [''purl'', ''type'', ''id'', ''url'']"
  proof -
    have "sax_parse (OCLCHandler (''/obo/'' @ lower idspace)) (Element root []) =
            Inr ((OCLCHandler (''/obo/'' @ lower idspace))\<lparr>content := []\<rparr>)"
      using that by (simp add: sax_parse_def startElement_def endElement_def Let_def)
    from 1 [OF this] show ?thesis by (simp add: OCLCHandler_def)
  qed
  have 4: "main idspace doc = ([], Some x)"
    if "sax_parse (OCLCHandler (''/obo/'' @ lower idspace)) doc = Inl x" for x
    using that by (simp add: main_def Let_def)
  have 5: "\<exists>g. sax_parse (OCLCHandler (''/obo/'' @ lower idspace)) doc = Inr g \<and>
               exact g @ prefix g \<noteq> []"
    if w: "fst (main idspace doc) \<noteq> []"
  proof (cases "sax_parse (OCLCHandler (''/obo/'' @ lower idspace)) doc")
    case (Inl x)
    from 4 [OF this] w show ?thesis by simp
  next
    case (Inr g)
    with 1 [OF Inr] w show ?thesis by (cases "exact g @ prefix g = []") auto
  qed
  from 1 2 3 4 5 show ?thesis by blast
qed

theorem no_entries_witness:
  "main ''FOO'' (Element ''purls'' []) = ([], Some (ValueError ''No entries to migrate'')) \<and>
   purl_count (Element ''purls'' [Element ''note'' [Text ''none'']]) = 0 \<and>
   main ''FOO'' (Element ''purls'' [Element ''note'' [Text ''none'']]) =
     ([], Some (ValueError ''No entries to migrate'')) \<and>
   main ''FOO'' (Element ''purls'' [purl_elem ''/obo/foo/x'' ''302'' ''http://e.org/x'',
                                    purl_elem ''/obo/bar/y'' ''302'' ''http://e.org/y'']) =
     ([], Some (ValueError (prefix_mismatch_msg 2 ''/obo/bar/y'' ''/obo/foo''))) \<and>
   fst (main ''FOO'' two_records) \<noteq> [] \<and>
   \<not> isl (sax_parse (OCLCHandler (''/obo/'' @ lower ''FOO'')) two_records)"
proof -
  let ?d = "Element ''purls'' [Element ''note'' [Text ''none'']]"
  let ?e = "Element ''purls'' [purl_elem ''/obo/foo/x'' ''302'' ''http://e.org/x'',
                               purl_elem ''/obo/bar/y'' ''302'' ''http://e.org/y'']"
  have a: "main ''FOO'' (Element ''purls'' []) = ([], Some (ValueError ''No entries to migrate''))"
    using no_entries [of "''FOO''" "Element ''purls'' []" _ "''purls''"]
    by (simp add: no_entries_msg_def)
  have "\<not> isl (sax_parse (OCLCHandler (''/obo/'' @ lower ''FOO'')) ?d)"
    by code_simp
  then obtain h where h: "sax_parse (OCLCHandler (''/obo/'' @ lower ''FOO'')) ?d = Inr h"
    by (auto dest: parsed_cases)
  have c: "purl_count ?d = 0" by simp
  from no_entries [of "''FOO''" ?d h] h c
  have b: "main ''FOO'' ?d = ([], Some (ValueError ''No entries to migrate''))"
    by (simp add: no_entries_msg_def)
  have "(case sax_parse (OCLCHandler (''/obo/'' @ lower ''FOO'')) ?e of
           Inl x \<Rightarrow> Some x | Inr g \<Rightarrow> None) =
          Some (ValueError (prefix_mismatch_msg 2 ''/obo/bar/y'' ''/obo/foo''))"
    by code_simp
  then have "sax_parse (OCLCHandler (''/obo/'' @ lower ''FOO'')) ?e =
          Inl (ValueError (prefix_mismatch_msg 2 ''/obo/bar/y'' ''/obo/foo''))"
    by (cases "sax_parse (OCLCHandler (''/obo/'' @ lower ''FOO'')) ?e") simp_all
  with no_entries [of "''FOO''" ?e _ _ "ValueError (prefix_mismatch_msg 2 ''/obo/bar/y'' ''/obo/foo'')"]
  have d: "main ''FOO'' ?e = ([], Some (ValueError (prefix_mismatch_msg 2 ''/obo/bar/y'' ''/obo/foo'')))"
    by simp
  have e: "fst (main ''FOO'' two_records) \<noteq> []"
    by code_simp
  with no_entries [of "''FOO''" two_records]
  obtain g where "sax_parse (OCLCHandler (''/obo/'' @ lower ''FOO'')) two_records = Inr g"
    by blast
  then have f: "\<not> isl (sax_parse (OCLCHandler (''/obo/'' @ lower ''FOO'')) two_records)"
    by simp
  from a b c d e f show ?thesis by simp
qed

subsection \<open>Sorting\<close>

lemma insort_key_map:
  "insort_key g (f x) (map f xs) = map f (insort_key (\<lambda>x. g (f x)) x xs)"
  by (induction xs) auto

lemma sort_key_map: "sort_key g (map f xs) = map f (sort_key (\<lambda>x. g (f x)) xs)"
  by (induction xs) (auto simp: insort_key_map)

lemma sort_decorated: "map snd (sort_key fst (map (\<lambda>a. (k a, a)) xs)) = sort_key k xs"
  by (simp add: sort_key_map comp_def)

lemma sorted_reverse_stable:
  "sorted_wrt (\<lambda>s t. g t \<le> g s) (rev (sort_key g (rev xs))) \<and>
   filter (\<lambda>t. g t = c) (rev (sort_key g (rev xs))) = filter (\<lambda>t. g t = c) xs"
proof -
  have "sorted (map g (sort_key g (rev xs)))" by simp
  then have "sorted_wrt (\<lambda>s t. g s \<le> g t) (sort_key g (rev xs))"
    by (simp add: sorted_wrt_map)
  then have 1: "sorted_wrt (\<lambda>s t. g t \<le> g s) (rev (sort_key g (rev xs)))"
    by (simp add: sorted_wrt_rev)
  have "filter (\<lambda>t. g t = c) (rev (sort_key g (rev xs))) =
          rev (filter (\<lambda>t. g t = c) (sort_key g (rev xs)))"
    by (simp add: rev_filter)
  also have "\<dots> = rev (filter (\<lambda>t. g t = c) (rev xs))"
    by (simp only: sort_key_stable)
  also have "\<dots> = filter (\<lambda>t. g t = c) xs"
    by (simp add: rev_filter)
  finally show ?thesis using 1 by simp
qed

lemma sort_keys_eq:
  "map (\<lambda>a. entry_fields (hp a)) as = map Some ts \<Longrightarrow>
     sort_keys hp as = Inr (map (\<lambda>a. (length (id_of (the (entry_fields (hp a)))), a)) as)"
proof (induction as arbitrary: ts)
  case Nil
  show ?case by simp
next
  case (Cons a as)
  from Cons.prems obtain t ts' where f: "entry_fields (hp a) = Some t"
    and r: "map (\<lambda>a. entry_fields (hp a)) as = map Some ts'"
    by (cases ts) auto
  obtain rule ident url where t: "t = (rule, ident, url)" by (cases t)
  from f t have "hp a ''id'' = Some ident"
    by (auto simp: entry_fields_def split: option.splits)
  with Cons.IH [OF r] f t show ?case
    by (simp add: getitem_def id_of_def)
qed

lemma sorted_reverse_eq:
  assumes "map (\<lambda>a. entry_fields (hp a)) as = map Some ts"
  shows "\<exists>sp. sorted_reverse hp as = Inr sp \<and>
              map (\<lambda>a. entry_fields (hp a)) sp =
                map Some (rev (sort_key (\<lambda>t. length (id_of t)) (rev ts)))"
proof -
  let ?k = "\<lambda>a. length (id_of (the (entry_fields (hp a))))"
  let ?sp = "rev (sort_key ?k (rev as))"
  have "map snd (rev (sort_key fst (rev (map (\<lambda>a. (?k a, a)) as)))) =
          rev (map snd (sort_key fst (map (\<lambda>a. (?k a, a)) (rev as))))"
    by (simp add: rev_map)
  also have "\<dots> = ?sp"
    by (simp only: sort_decorated)
  finally have "map snd (rev (sort_key fst (rev (map (\<lambda>a. (?k a, a)) as)))) = ?sp" .
  with sort_keys_eq [OF assms] have sp: "sorted_reverse hp as = Inr ?sp"
    by (simp add: sorted_reverse_def)
  have the: "map (\<lambda>a. the (entry_fields (hp a))) as = ts"
  proof -
    have "map the (map (\<lambda>a. entry_fields (hp a)) as) = map the (map Some ts)"
      using assms by simp
    then show ?thesis by (simp add: comp_def)
  qed
  have in_as: "entry_fields (hp a) = Some (the (entry_fields (hp a)))" if "a \<in> set as" for a
  proof -
    from that have "entry_fields (hp a) \<in> set (map (\<lambda>a. entry_fields (hp a)) as)" by auto
    with assms have "entry_fields (hp a) \<in> set (map Some ts)" by simp
    then show ?thesis by auto
  qed
  have "map (\<lambda>a. entry_fields (hp a)) ?sp = map Some (map (\<lambda>a. the (entry_fields (hp a))) ?sp)"
    using in_as by (simp add: comp_def)
  also have "map (\<lambda>a. the (entry_fields (hp a))) ?sp =
               rev (sort_key (\<lambda>t. length (id_of t)) (rev (map (\<lambda>a. the (entry_fields (hp a))) as)))"
    by (simp add: sort_key_map rev_map)
  finally show ?thesis using sp the by auto
qed

subsection \<open>The order of the entries\<close>

lemma fields_cong:
  "(\<And>a. a \<in> set as \<Longrightarrow> heap h' a = heap h a) \<Longrightarrow> fields h' as = fields h as"
  by (simp add: fields_def)

lemma step_quiet:
  assumes "apart_inv h closed" and "\<not> mutates e" and "handle_event h e = Inr h'"
  shows "apart_inv h' (closed \<and> e \<noteq> StartElement ''purl'') \<and>
         exact h' = exact h \<and> prefix h' = prefix h \<and>
         fields h' (exact h) = fields h (exact h) \<and> fields h' (prefix h) = fields h (prefix h)"
proof (cases "e = StartElement ''purl''")
  case True
  with assms(3) have h': "h' = startElement h ''purl''" by simp
  from assms(1) have ok: "listed_ok h" by (simp add: apart_inv_def)
  then have lt: "\<And>a. a \<in> set (exact h) \<union> set (prefix h) \<Longrightarrow> a < next_addr h"
    by (auto simp: listed_ok_def list_all_iff)
  have l: "exact h' = exact h" "prefix h' = prefix h" "entry h' = next_addr h"
    by (simp_all add: h' startElement_def Let_def)
  have hp: "heap h' a = heap h a" if "a \<in> set (exact h) \<union> set (prefix h)" for a
    using lt [OF that] by (simp add: h' startElement_def Let_def)
  have "entry h' \<notin> set (exact h') \<union> set (prefix h')"
    using lt l by (metis less_irrefl)
  moreover have "listed_ok h'" using ok h' by (simp add: listed_ok_start)
  ultimately have "apart_inv h' False" by (simp add: apart_inv_def)
  moreover have "fields h' (exact h) = fields h (exact h)" "fields h' (prefix h) = fields h (prefix h)"
    using hp by (auto intro: fields_cong)
  ultimately show ?thesis using True l by simp
next
  case False
  with assms(2,3) have same: "heap h' = heap h" "exact h' = exact h" "prefix h' = prefix h"
    "entry h' = entry h" "next_addr h' = next_addr h"
    by (cases e; auto simp: startElement_def characters_def endElement_def Let_def)+
  then have "apart_inv h' closed"
    using assms(1) by (simp add: apart_inv_def listed_ok_def)
  with False same show ?thesis by (simp add: fields_def)
qed

lemma step_field:
  assumes "apart_inv h False" and "name \<in> set [''type'', ''id'', ''url'']"
    and "endElement h name = Inr h'"
  shows "apart_inv h' False \<and> exact h' = exact h \<and> prefix h' = prefix h \<and>
         fields h' (exact h) = fields h (exact h) \<and> fields h' (prefix h) = fields h (prefix h)"
proof -
  from assms(2,3) have h': "h' = entry_set h name (strip (content h))"
    by (auto simp: endElement_def split: if_splits)
  from assms(1) have ok: "listed_ok h" and out: "entry h \<notin> set (exact h) \<union> set (prefix h)"
    by (simp_all add: apart_inv_def)
  have l: "exact h' = exact h" "prefix h' = prefix h" "entry h' = entry h"
    by (simp_all add: h' entry_set_def)
  have hp: "heap h' a = heap h a" if "a \<in> set (exact h) \<union> set (prefix h)" for a
    using that out by (auto simp: h' entry_set_def)
  have "listed_ok h'" using ok h' by (simp add: listed_ok_entry_set)
  with out l have "apart_inv h' False" by (simp add: apart_inv_def)
  moreover have "fields h' (exact h) = fields h (exact h)" "fields h' (prefix h) = fields h (prefix h)"
    using hp by (auto intro: fields_cong)
  ultimately show ?thesis using l by simp
qed

lemma step_purl:
  assumes "apart_inv h False" and "endElement h ''purl'' = Inr h'"
  shows "\<exists>t. entry_fields (heap h' (entry h')) = Some t \<and>
             (rule_of t = ''exact'' \<or> rule_of t = ''prefix'') \<and>
             apart_inv h' True \<and>
             fields h' (exact h') = fields h (exact h) @ map Some (filter (\<lambda>t. rule_of t = ''exact'') [t]) \<and>
             fields h' (prefix h') = fields h (prefix h) @ map Some (filter (\<lambda>t. rule_of t = ''prefix'') [t])"
proof -
  from assms(1) have ok: "listed_ok h" and out: "entry h \<notin> set (exact h) \<union> set (prefix h)"
    by (simp_all add: apart_inv_def)
  from assms(2) have e: "end_purl h = Inr h'" by (simp add: endElement_def)
  with ok have ok': "listed_ok h'" by (rule listed_ok_end_purl)
  from e obtain ident url rule where
    h': "h' = (entry_set (entry_set h ''id'' ident) ''rule'' ''exact'')\<lparr>exact := exact h @ [entry h]\<rparr> \<and>
           rule = ''exact'' \<or>
         h' = (entry_set (entry_set h ''id'' ident) ''rule'' ''prefix'')\<lparr>prefix := prefix h @ [entry h]\<rparr> \<and>
           rule = ''prefix''"
    and url: "heap h (entry h) ''url'' = Some url"
    unfolding end_purl_def Let_def
    by (auto split: option.splits if_splits simp: entry_set_def)
  let ?t = "(rule, ident, url)"
  from h' url have t: "entry_fields (heap h' (entry h')) = Some ?t" and en: "entry h' = entry h"
    by (auto simp: entry_set_def entry_fields_def)
  have hp: "heap h' a = heap h a" if "a \<in> set (exact h) \<union> set (prefix h)" for a
    using that out h' by (auto simp: entry_set_def)
  then have old: "fields h' (exact h) = fields h (exact h)" "fields h' (prefix h) = fields h (prefix h)"
    by (auto intro: fields_cong)
  from h' have r: "rule = ''exact'' \<or> rule = ''prefix''" by auto
  have new: "fields h' [entry h] = [Some ?t]"
    using t en by (simp add: fields_def)
  have app: "fields h' (xs @ ys) = fields h' xs @ fields h' ys" for xs ys
    by (simp add: fields_def)
  from h' have
    "fields h' (exact h') = fields h (exact h) @ map Some (filter (\<lambda>t. rule_of t = ''exact'') [?t]) \<and>
     fields h' (prefix h') = fields h (prefix h) @ map Some (filter (\<lambda>t. rule_of t = ''prefix'') [?t])"
  proof
    assume a: "h' = (entry_set (entry_set h ''id'' ident) ''rule'' ''exact'')\<lparr>exact := exact h @ [entry h]\<rparr> \<and>
           rule = ''exact''"
    then have "exact h' = exact h @ [entry h]" "prefix h' = prefix h"
      by (simp_all add: entry_set_def)
    with a old new app show ?thesis by (simp add: rule_of_def)
  next
    assume a: "h' = (entry_set (entry_set h ''id'' ident) ''rule'' ''prefix'')\<lparr>prefix := prefix h @ [entry h]\<rparr> \<and>
           rule = ''prefix''"
    then have "exact h' = exact h" "prefix h' = prefix h @ [entry h]"
      by (simp_all add: entry_set_def)
    with a old new app show ?thesis by (simp add: rule_of_def)
  qed
  with t r ok' show ?thesis
    by (auto simp: apart_inv_def rule_of_def)
qed

lemma step_any:
  assumes "apart_inv h closed" and "(closed \<and> mutates e) = False"
    and "handle_event h e = Inr h'"
  shows "apart_inv h' (e = EndElement ''purl'' \<or> (closed \<and> e \<noteq> StartElement ''purl'')) \<and>
         list_all (\<lambda>t. rule_of t = ''exact'' \<or> rule_of t = ''prefix'') (validated h [e]) \<and>
         fields h' (exact h') =
           fields h (exact h) @ map Some (filter (\<lambda>t. rule_of t = ''exact'') (validated h [e])) \<and>
         fields h' (prefix h') =
           fields h (prefix h) @ map Some (filter (\<lambda>t. rule_of t = ''prefix'') (validated h [e]))"
proof (cases "mutates e")
  case False
  then have "e \<noteq> EndElement ''purl''" by auto
  with step_quiet [OF assms(1) False assms(3)] assms(3) show ?thesis by simp
next
  case True
  with assms(2) have nc: "\<not> closed" by simp
  with assms(1) have inv: "apart_inv h False" by simp
  from True obtain name where e: "e = EndElement name"
    and n: "name \<in> set [''type'', ''id'', ''url'', ''purl'']"
    by (cases e) auto
  show ?thesis
  proof (cases "name = ''purl''")
    case True
    with e assms(3) have "endElement h ''purl'' = Inr h'" by simp
    from step_purl [OF inv this] obtain t where
      "entry_fields (heap h' (entry h')) = Some t"
      "rule_of t = ''exact'' \<or> rule_of t = ''prefix''"
      "apart_inv h' True"
      "fields h' (exact h') = fields h (exact h) @ map Some (filter (\<lambda>t. rule_of t = ''exact'') [t])"
      "fields h' (prefix h') = fields h (prefix h) @ map Some (filter (\<lambda>t. rule_of t = ''prefix'') [t])"
      by blast
    with e True assms(3) show ?thesis by simp
  next
    case False
    with n have tr: "name \<in> set [''type'', ''id'', ''url'']" by simp
    from e assms(3) have "endElement h name = Inr h'" by simp
    from step_field [OF inv tr this] e False nc assms(3) show ?thesis by simp
  qed
qed

lemma validated_Cons:
  "handle_event h e = Inr h1 \<Longrightarrow> validated h (e # es) = validated h [e] @ validated h1 es"
  by simp

lemma run_fields:
  assumes "apart_inv h closed" and "records_apart closed es" and "handle_events h es = Inr h'"
  shows "list_all (\<lambda>t. rule_of t = ''exact'' \<or> rule_of t = ''prefix'') (validated h es) \<and>
         fields h' (exact h') =
           fields h (exact h) @ map Some (filter (\<lambda>t. rule_of t = ''exact'') (validated h es)) \<and>
         fields h' (prefix h') =
           fields h (prefix h) @ map Some (filter (\<lambda>t. rule_of t = ''prefix'') (validated h es))"
  using assms
proof (induction es arbitrary: h closed)
  case Nil
  then show ?case by simp
next
  case (Cons e es)
  from Cons.prems(3) obtain h1 where 1: "handle_event h e = Inr h1"
    and 2: "handle_events h1 es = Inr h'"
    by (auto split: sum.splits)
  from Cons.prems(2) have a: "(closed \<and> mutates e) = False"
    and r: "records_apart (e = EndElement ''purl'' \<or> (closed \<and> e \<noteq> StartElement ''purl'')) es"
    by simp_all
  note s = step_any [OF Cons.prems(1) a 1]
  from s have inv1: "apart_inv h1 (e = EndElement ''purl'' \<or> (closed \<and> e \<noteq> StartElement ''purl''))"
    by blast
  note ih = Cons.IH [OF inv1 r 2]
  have v: "validated h (e # es) = validated h [e] @ validated h1 es"
    using 1 by (rule validated_Cons)
  from s ih show ?case
    by (simp only: v filter_append map_append list_all_append append_assoc)
qed

lemma no_purl_apart:
  "no_purl t \<Longrightarrow> records_apart False (sax_events t @ es) = records_apart False es"
proof (induction t arbitrary: es)
  case (Text s)
  show ?case by simp
next
  case (Element name children)
  then have n: "name \<noteq> ''purl''" and cs: "list_all no_purl children" by simp_all
  have inner: "records_apart False (concat (map sax_events cs) @ rest) = records_apart False rest"
    if "set cs \<subseteq> set children" for cs rest
    using that
  proof (induction cs)
    case Nil
    show ?case by simp
  next
    case (Cons c cs)
    then have "c \<in> set children" by simp
    moreover from this cs have "no_purl c" by (simp add: list_all_iff)
    ultimately have "records_apart False (sax_events c @ (concat (map sax_events cs) @ rest)) =
                       records_apart False (concat (map sax_events cs) @ rest)"
      by (rule Element.IH)
    with Cons show ?case by simp
  qed
  from n inner [of children "EndElement name # es"] show ?case by simp
qed

lemma no_purl_list_apart:
  "list_all no_purl cs \<Longrightarrow>
     records_apart False (concat (map sax_events cs) @ es) = records_apart False es"
  by (induction cs) (simp_all add: no_purl_apart)

lemma flat_child_apart:
  assumes "flat_child c" and "\<And>b. records_apart b es"
  shows "records_apart b (sax_events c @ es)"
proof (cases c)
  case (Text s)
  with assms(2) show ?thesis by simp
next
  case (Element name children)
  with assms(1) have n: "name = ''purl''" and cs: "list_all no_purl children" by simp_all
  from no_purl_list_apart [OF cs, of "EndElement ''purl'' # es"] assms(2) Element n
  show ?thesis by simp
qed

lemma flat_children_apart:
  "list_all flat_child cs \<Longrightarrow> (\<And>b. records_apart b es) \<Longrightarrow>
     records_apart b (concat (map sax_events cs) @ es)"
proof (induction cs arbitrary: b)
  case Nil
  then show ?case by simp
next
  case (Cons c cs)
  then have "\<And>b. records_apart b (concat (map sax_events cs) @ es)" by simp
  with Cons.prems(1) flat_child_apart [of c "concat (map sax_events cs) @ es" b]
  show ?case by simp
qed

lemma flat_document_apart: "flat_document doc \<Longrightarrow> records_apart False (sax_events doc)"
proof (cases doc)
  case (Text s)
  assume "flat_document doc"
  with Text show ?thesis by simp
next
  case (Element root children)
  assume "flat_document doc"
  with Element have r: "root \<notin> set [''type'', ''id'', ''url'', ''purl'']"
    and cs: "list_all flat_child children"
    by simp_all
  from r have "\<And>b. records_apart b [EndElement root]" by simp
  from flat_children_apart [OF cs this, of False] Element r show ?thesis by simp
qed

text \<open>
  Claim C1, as amended. Take a run that raises nothing, on a document in which, once a
  record element has ended, no element named \<^verbatim>\<open>id\<close>, \<^verbatim>\<open>type\<close>, \<^verbatim>\<open>url\<close> or \<^verbatim>\<open>purl\<close> ends
  until another record element has started, and none ends after the end of the last
  record. Let \<open>vs\<close> be the validated records in the order of their ends. The file is the
  header, then the \<^verbatim>\<open>exact\<close> records of \<open>vs\<close> in their order, then the \<^verbatim>\<open>prefix\<close> records
  of \<open>vs\<close> sorted by the length of the stripped id, longest first, those of one length
  in their order in \<open>vs\<close>; and every record of \<open>vs\<close> is one or the other.
\<close>

theorem output_order:
  assumes "snd (main idspace doc) = None"
    and "records_apart False (sax_events doc)"
    and "vs = validated (OCLCHandler (''/obo/'' @ lower idspace)) (sax_events doc)"
  shows "\<exists>sorted_prefix.
           fst (main idspace doc) =
             header_template (''/obo/'' @ lower idspace) (upper idspace)
               (''/obo/'' @ lower idspace) (lower idspace) (lower idspace) #
             map block (filter (\<lambda>t. rule_of t = ''exact'') vs @ sorted_prefix) \<and>
           list_all (\<lambda>t. rule_of t = ''exact'' \<or> rule_of t = ''prefix'') vs \<and>
           sorted_wrt (\<lambda>s t. length (id_of t) \<le> length (id_of s)) sorted_prefix \<and>
           (\<forall>n. filter (\<lambda>t. length (id_of t) = n) sorted_prefix =
                filter (\<lambda>t. length (id_of t) = n) (filter (\<lambda>t. rule_of t = ''prefix'') vs))"
proof -
  let ?base = "''/obo/'' @ lower idspace"
  let ?header = "header_template ?base (upper idspace) ?base (lower idspace) (lower idspace)"
  let ?E = "filter (\<lambda>t. rule_of t = ''exact'') vs"
  let ?Q = "filter (\<lambda>t. rule_of t = ''prefix'') vs"
  let ?P = "rev (sort_key (\<lambda>t. length (id_of t)) (rev ?Q))"
  from assms(1) obtain h where h: "sax_parse (OCLCHandler ?base) doc = Inr h"
    by (cases "sax_parse (OCLCHandler ?base) doc") (auto simp: main_def Let_def)
  then have run: "handle_events (OCLCHandler ?base) (sax_events doc) = Inr h"
    by (simp add: sax_parse_def)
  have inv: "apart_inv (OCLCHandler ?base) False"
    by (simp add: apart_inv_def listed_ok_init) (simp add: OCLCHandler_def)
  from run_fields [OF inv assms(2) run] assms(3)
  have kinds: "list_all (\<lambda>t. rule_of t = ''exact'' \<or> rule_of t = ''prefix'') vs"
    and E: "fields h (exact h) = map Some ?E"
    and Q: "fields h (prefix h) = map Some ?Q"
    by (simp_all add: fields_def OCLCHandler_def)
  from Q have "map (\<lambda>a. entry_fields (heap h a)) (prefix h) = map Some ?Q"
    by (simp add: fields_def)
  from sorted_reverse_eq [OF this] obtain sp where
    sp: "sorted_reverse (heap h) (prefix h) = Inr sp"
    and P: "map (\<lambda>a. entry_fields (heap h a)) sp = map Some ?P"
    by blast
  from E P have "map (\<lambda>a. entry_fields (heap h a)) (exact h @ sp) = map Some (?E @ ?P)"
    by (simp add: fields_def)
  note w = write_entries_fields [OF this, of "[?header]"]
  have m: "main idspace doc =
             (if length (exact h @ sp) = 0 then ([], Some (ValueError no_entries_msg))
              else write_entries (heap h) (exact h @ sp) [?header])"
    using h sp by (simp add: main_def Let_def)
  from assms(1) m have "length (exact h @ sp) \<noteq> 0"
    by (cases "length (exact h @ sp) = 0") simp_all
  with m w have out: "fst (main idspace doc) = ?header # map block (?E @ ?P)"
    by simp
  from sorted_reverse_stable [of "\<lambda>t. length (id_of t)" ?Q]
  have "sorted_wrt (\<lambda>s t. length (id_of t) \<le> length (id_of s)) ?P"
    and "\<And>n. filter (\<lambda>t. length (id_of t) = n) ?P = filter (\<lambda>t. length (id_of t) = n) ?Q"
    by blast+
  with out kinds show ?thesis by blast
qed

theorem output_order_witness:
  "snd (main ''foo'' five_records) = None \<and>
   records_apart False (sax_events five_records) \<and>
   validated (OCLCHandler (''/obo/'' @ lower ''foo'')) (sax_events five_records) =
     [(''prefix'', ''/ab'', ''http://example.org/1''), (''exact'', ''/x'', ''http://example.org/2''),
      (''prefix'', ''/abcd'', ''http://example.org/3''), (''exact'', ''/longest'', ''http://example.org/4''),
      (''prefix'', ''/cd'', ''http://example.org/5'')] \<and>
   fst (main ''foo'' five_records) =
     header_template ''/obo/foo'' ''FOO'' ''/obo/foo'' ''foo'' ''foo'' #
     map block
       [(''exact'', ''/x'', ''http://example.org/2''), (''exact'', ''/longest'', ''http://example.org/4''),
        (''prefix'', ''/abcd'', ''http://example.org/3''), (''prefix'', ''/ab'', ''http://example.org/1''),
        (''prefix'', ''/cd'', ''http://example.org/5'')]"
proof -
  have 1: "snd (main ''foo'' five_records) = None"
    by code_simp
  have "flat_document five_records"
    by (simp add: five_records_def purl_elem_def)
  then have 2: "records_apart False (sax_events five_records)"
    by (rule flat_document_apart)
  have 3: "validated (OCLCHandler (''/obo/'' @ lower ''foo'')) (sax_events five_records) =
     [(''prefix'', ''/ab'', ''http://example.org/1''), (''exact'', ''/x'', ''http://example.org/2''),
      (''prefix'', ''/abcd'', ''http://example.org/3''), (''exact'', ''/longest'', ''http://example.org/4''),
      (''prefix'', ''/cd'', ''http://example.org/5'')]"
    by code_simp
  have 4: "fst (main ''foo'' five_records) =
     header_template ''/obo/foo'' ''FOO'' ''/obo/foo'' ''foo'' ''foo'' #
     map block
       [(''exact'', ''/x'', ''http://example.org/2''), (''exact'', ''/longest'', ''http://example.org/4''),
        (''prefix'', ''/abcd'', ''http://example.org/3''), (''prefix'', ''/ab'', ''http://example.org/1''),
        (''prefix'', ''/cd'', ''http://example.org/5'')]"
    by code_simp
  from output_order [OF 1 2 3 [symmetric]] 1 2 3 4 show ?thesis by simp
qed

text \<open>
  Claim C1 as stated fails on a document with a record element inside a record element.
  The inner end validates the entry as \<^verbatim>\<open>exact\<close> and appends it to the list \<^verbatim>\<open>exact\<close>;
  the outer end validates the same dictionary again, now with the type \<^verbatim>\<open>partial\<close>,
  relabels it \<^verbatim>\<open>prefix\<close> and appends it to the list \<^verbatim>\<open>prefix\<close>. The file then has a
  \<^verbatim>\<open>prefix\<close> block before an \<^verbatim>\<open>exact\<close> block.
\<close>

theorem nested_record_order:
  "main ''foo'' nested_records =
     ([header_template ''/obo/foo'' ''FOO'' ''/obo/foo'' ''foo'' ''foo'',
       entry_template ''prefix'' ''/a'' ''http://example.org/a'',
       entry_template ''exact'' ''/b'' ''http://example.org/b'',
       entry_template ''prefix'' ''/a'' ''http://example.org/a''], None)"
  by code_simp

text \<open>
  The condition on the document cannot be dropped for tracked fields outside the records
  either: an \<^verbatim>\<open>id\<close> element after the end of a record overwrites the id of the entry that
  is already in the list. Both documents fail the condition, and their files are not in
  the order of the stripped ids, which is \<^verbatim>\<open>/bbbb\<close>, \<^verbatim>\<open>/a\<close>.
\<close>

lemma stray_field_order:
  "records_apart False (sax_events stray_between) = False \<and>
   main ''foo'' stray_between =
     ([header_template ''/obo/foo'' ''FOO'' ''/obo/foo'' ''foo'' ''foo'',
       entry_template ''prefix'' ''zzzzzzzz'' ''http://example.org/a'',
       entry_template ''prefix'' ''/bbbb'' ''http://example.org/b''], None) \<and>
   records_apart False (sax_events stray_after) = False \<and>
   main ''foo'' stray_after =
     ([header_template ''/obo/foo'' ''FOO'' ''/obo/foo'' ''foo'' ''foo'',
       entry_template ''prefix'' ''/a'' ''http://example.org/a'',
       entry_template ''prefix'' ''z'' ''http://example.org/b''], None)"
  by code_simp

end
